theory Spec2Isabelle
  imports Complex_Main "HOL-Library.Multiset" "HOL-Library.Monad_Syntax"
begin

section \<open>The graph collaborator\<close>

text \<open>
  Modelled from the spec: the class \<open>Graph\<close> (its header and implementation are not part
  of the sources at hand).  Section 3 of the specification describes it as a collection of
  nodes with integer ids below an upper node id bound, some of which may not exist, with
  edges that may be self-loops or parallel.  The model keeps one existence flag and one
  adjacency array per id; an undirected edge \<open>{u, v}\<close> is one entry \<open>v\<close> in the array of
  \<open>u\<close> and one entry \<open>u\<close> in the array of \<open>v\<close>, a self-loop is one entry \<open>u\<close> in the array
  of \<open>u\<close>, and a parallel edge is a repeated entry.
\<close>

record graph =
  exists :: "bool list"
  adja :: "nat list list"

definition upperNodeIdBound :: "graph \<Rightarrow> nat" where
  "upperNodeIdBound G = length (exists G)"

text \<open>\<open>forNodes\<close> and its parallel variants visit the existing ids; the serial one in
  ascending order.\<close>

definition nodes :: "graph \<Rightarrow> nat list" where
  "nodes G = filter (\<lambda>v. exists G ! v) [0..<upperNodeIdBound G]"

text \<open>\<open>forEdgesOf\<close> and \<open>forNeighborsOf\<close> enumerate the adjacency array of a node.\<close>

definition edgesOf :: "graph \<Rightarrow> nat \<Rightarrow> nat list" where
  "edgesOf G u = adja G ! u"

definition degree :: "graph \<Rightarrow> nat \<Rightarrow> nat" where
  "degree G u = length (edgesOf G u)"

definition hasEdge :: "graph \<Rightarrow> nat \<Rightarrow> nat \<Rightarrow> bool" where
  "hasEdge G u v = (v \<in> set (edgesOf G u))"

text \<open>The graphs the class can hold: every id has an adjacency array, edges join existing
  nodes within the id range, and every edge is seen from both of its ends.\<close>

definition wf_graph :: "graph \<Rightarrow> bool" where
  "wf_graph G =
     (length (adja G) = length (exists G) \<and>
      (\<forall>v \<in> set [0..<upperNodeIdBound G]. \<forall>w \<in> set (edgesOf G v).
          w < upperNodeIdBound G \<and> exists G ! v \<and> exists G ! w \<and> hasEdge G w v))"

definition simple_graph :: "graph \<Rightarrow> bool" where
  "simple_graph G =
     (\<forall>v \<in> set [0..<upperNodeIdBound G]. distinct (edgesOf G v) \<and> v \<notin> set (edgesOf G v))"

section \<open>Arithmetic of the source\<close>

text \<open>
  \<open>count\<close>, \<open>index\<close> and \<open>node\<close> are unsigned 64-bit integers.  They are modelled as
  natural numbers; the one subtraction that wraps around on small inputs, \<open>psum - 1\<close> at
  \<open>psum = 0\<close>, is written out in \<open>count_pred\<close>.  The product \<open>d * (d - 1)\<close> is \<open>0\<close> at
  \<open>d = 0\<close> in both readings.

  A \<open>double\<close> is modelled as an exact real number, or one of the special values that a
  division by zero produces.
\<close>

definition count_pred :: "nat \<Rightarrow> nat" where
  "count_pred n = (if n = 0 then 2 ^ 64 - 1 else n - 1)"

datatype double = Finite real | NaN | PosInf | NegInf

definition ddiv :: "real \<Rightarrow> real \<Rightarrow> double" where
  "ddiv x y =
     (if y \<noteq> 0 then Finite (x / y)
      else if x = 0 then NaN
      else if 0 < x then PosInf else NegInf)"

section \<open>The weighted vertex sampler of approxGlobal\<close>

text \<open>The prefix sum over the nodes: the running total and the array after the loop.\<close>

definition weight_step :: "graph \<Rightarrow> nat \<Rightarrow> nat \<times> nat list \<Rightarrow> nat \<times> nat list" where
  "weight_step G v = (\<lambda>(psum, weight).
     (let psum' = psum + degree G v * (degree G v - 1)
      in (psum', weight[v := psum'])))"

definition prefixWeights :: "graph \<Rightarrow> nat \<times> nat list" where
  "prefixWeights G = fold (weight_step G) (nodes G) (0, replicate (upperNodeIdBound G) 0)"

text \<open>The binary search, started at \<open>low = 0\<close> and \<open>high = upperNodeIdBound\<close>; the result is
  the value of \<open>low\<close> when the loop ends.\<close>

function binarySearch :: "nat list \<Rightarrow> nat \<Rightarrow> nat \<Rightarrow> nat \<Rightarrow> nat" where
  "binarySearch weight r low high =
     (if low < high then
        (let middle = (low + high) div 2 in
         if weight ! middle < r then binarySearch weight r (middle + 1) high
         else if weight ! middle > r then binarySearch weight r low middle
         else binarySearch weight r middle middle)
      else low)"
  by pat_completeness auto
termination
  by (relation "measure (\<lambda>(weight, r, low, high). high - low)") auto

declare binarySearch.simps [simp del]

section \<open>exactLocal\<close>

text \<open>The set of the neighbours of \<open>u\<close>, built by \<open>forNeighborsOf\<close>; \<open>u\<close> itself is left out.\<close>

definition uNeighbors :: "graph \<Rightarrow> nat \<Rightarrow> nat set" where
  "uNeighbors G u = fold (\<lambda>v s. if v \<noteq> u then insert v s else s) (edgesOf G u) {}"

text \<open>The counter \<open>triangles\<close> after the two nested \<open>forEdgesOf\<close> loops.\<close>

definition localTriangles :: "graph \<Rightarrow> nat \<Rightarrow> nat" where
  "localTriangles G u =
     fold (\<lambda>v triangles.
            fold (\<lambda>w triangles. if w \<in> uNeighbors G u then triangles + 1 else triangles)
              (edgesOf G v) triangles)
       (edgesOf G u) 0"

text \<open>The body of the loop over the nodes: the value stored at \<open>coefficient[u]\<close>.\<close>

definition localCoefficient :: "graph \<Rightarrow> nat \<Rightarrow> real" where
  "localCoefficient G u =
     (let d = degree G u in
      if d < 2 then 0 else real (localTriangles G u) / real (d * (d - 1)))"

text \<open>Every node writes its own slot of a zero-initialised array of length
  \<open>upperNodeIdBound\<close>.\<close>

definition exactLocal :: "graph \<Rightarrow> real list" where
  "exactLocal G =
     fold (\<lambda>u coefficient. coefficient[u := localCoefficient G u]) (nodes G)
       (replicate (upperNodeIdBound G) 0)"

section \<open>avgLocal\<close>

definition avgLocal_step :: "graph \<Rightarrow> real list \<Rightarrow> nat \<Rightarrow> real \<times> nat \<Rightarrow> real \<times> nat" where
  "avgLocal_step G coefficients u = (\<lambda>(sum, size).
     if degree G u \<ge> 2 then (sum + coefficients ! u, size + 1) else (sum, size))"

definition avgLocal :: "graph \<Rightarrow> double" where
  "avgLocal G =
     (let coefficients = exactLocal G;
          (sum, size) = fold (avgLocal_step G coefficients) (nodes G) (0, 0)
      in ddiv sum (real size))"

section \<open>exactGlobal\<close>

text \<open>The value stored at \<open>triangles[u]\<close>.\<close>

definition globalTriangles :: "graph \<Rightarrow> nat \<Rightarrow> nat" where
  "globalTriangles G u =
     (if degree G u > 1 then
        fold (\<lambda>v tr. fold (\<lambda>w tr. if hasEdge G u w then tr + 1 else tr) (edgesOf G v) tr)
          (edgesOf G u) 0
      else 0)"

text \<open>
  Modelled from the spec: \<open>parallelSumForNodes\<close>, a reduction that adds up the value of a
  function at every existing node.  The order in which the parallel tasks reach the nodes
  is a parameter, the schedule.
\<close>

definition parallelSumForNodes :: "nat list \<Rightarrow> (nat \<Rightarrow> nat) \<Rightarrow> real" where
  "parallelSumForNodes schedule f = fold (\<lambda>u sum. sum + real (f u)) schedule 0"

text \<open>\<open>exactGlobal\<close> under a schedule for each of its three parallel loops.\<close>

definition exactGlobal_scheduled :: "graph \<Rightarrow> nat list \<Rightarrow> nat list \<Rightarrow> nat list \<Rightarrow> double" where
  "exactGlobal_scheduled G s1 s2 s3 =
     (let triangles = fold (\<lambda>u triangles. triangles[u := globalTriangles G u]) s1
                        (replicate (upperNodeIdBound G) 0);
          denominator = parallelSumForNodes s2 (\<lambda>u. degree G u * (degree G u - 1));
          cc = parallelSumForNodes s3 (\<lambda>u. triangles ! u)
      in ddiv cc denominator)"

definition exactGlobal :: "graph \<Rightarrow> double" where
  "exactGlobal G = exactGlobal_scheduled G (nodes G) (nodes G) (nodes G)"

text \<open>A schedule visits every existing node once.\<close>

definition valid_schedule :: "graph \<Rightarrow> nat list \<Rightarrow> bool" where
  "valid_schedule G s = (mset s = mset (nodes G))"

section \<open>The random source\<close>

text \<open>
  Modelled from the spec: \<open>Graph::randomNode\<close>, \<open>Graph::randomNeighbor\<close> and
  \<open>Aux::Random::integer\<close>.  The process-wide generator is an infinite sequence of raw
  draws \<open>rnd\<close> read at a position that every draw advances.  A raw draw selects a node
  among the existing ones, a neighbour among the entries of the adjacency array, and an
  integer in the closed range up to the bound.  Drawing a node from a graph without nodes
  has no result.
\<close>

definition randomNode :: "graph \<Rightarrow> nat \<Rightarrow> nat option" where
  "randomNode G x = (if nodes G = [] then None else Some (nodes G ! (x mod length (nodes G))))"

definition randomNeighbor :: "graph \<Rightarrow> nat \<Rightarrow> nat \<Rightarrow> nat" where
  "randomNeighbor G v x = edgesOf G v ! (x mod degree G v)"

definition random_integer :: "nat \<Rightarrow> nat \<Rightarrow> nat" where
  "random_integer upperBound x = x mod (upperBound + 1)"

section \<open>The approximate estimators\<close>

text \<open>
  What a run can end in besides a value: drawing a node from an empty graph, and asking
  for the degree of an id outside the id range (an unchecked read in the source).  A run
  that never ends has the value \<open>None\<close>.
\<close>

datatype fault = NoNodeToDraw | DegreeOutOfRange nat

text \<open>The loop \<open>while (u == w) w = G.randomNeighbor(v)\<close>: the final \<open>w\<close> and the position
  of the random source.\<close>

partial_function (option) redraw ::
  "graph \<Rightarrow> (nat \<Rightarrow> nat) \<Rightarrow> nat \<Rightarrow> nat \<Rightarrow> nat \<Rightarrow> nat \<Rightarrow> (nat \<times> nat) option" where
  "redraw G rnd v u w pos =
     (if u = w then redraw G rnd v u (randomNeighbor G v (rnd pos)) (pos + 1)
      else Some (w, pos))"

declare redraw.simps [code]

text \<open>The trial loop of \<open>approxAvgLocal\<close>.  A discarded draw leaves \<open>k\<close> as it was (the
  source decrements it before the loop header increments it).\<close>

partial_function (option) approxAvgLocal_loop ::
  "graph \<Rightarrow> (nat \<Rightarrow> nat) \<Rightarrow> nat \<Rightarrow> nat \<Rightarrow> nat \<Rightarrow> nat \<Rightarrow> (fault + nat) option" where
  "approxAvgLocal_loop G rnd trials k pos triangles =
     (if k < trials then
        (case randomNode G (rnd pos) of
           None \<Rightarrow> Some (Inl NoNodeToDraw)
         | Some v \<Rightarrow>
             if degree G v < 2 then approxAvgLocal_loop G rnd trials k (pos + 1) triangles
             else
               (let u = randomNeighbor G v (rnd (pos + 1));
                    w = randomNeighbor G v (rnd (pos + 2))
                in case redraw G rnd v u w (pos + 3) of
                     None \<Rightarrow> None
                   | Some (w', pos') \<Rightarrow>
                       approxAvgLocal_loop G rnd trials (k + 1) pos'
                         (if hasEdge G u w' then triangles + 1 else triangles)))
      else Some (Inr triangles))"

definition estimate :: "nat \<Rightarrow> (fault + nat) option \<Rightarrow> (fault + double) option" where
  "estimate trials run = map_option (map_sum id (\<lambda>triangles. ddiv (real triangles) (real trials))) run"

definition approxAvgLocal :: "graph \<Rightarrow> (nat \<Rightarrow> nat) \<Rightarrow> nat \<Rightarrow> (fault + double) option" where
  "approxAvgLocal G rnd trials = estimate trials (approxAvgLocal_loop G rnd trials 0 0 0)"

declare approxAvgLocal_loop.simps [code]

text \<open>The trial loop of \<open>approxGlobal\<close>, over the prefix sums computed before it.\<close>

partial_function (option) approxGlobal_loop ::
  "graph \<Rightarrow> (nat \<Rightarrow> nat) \<Rightarrow> nat \<Rightarrow> nat list \<Rightarrow> nat \<Rightarrow> nat \<Rightarrow> nat \<Rightarrow> nat \<Rightarrow> (fault + nat) option"
  where
  "approxGlobal_loop G rnd psum weight trials k pos triangles =
     (if k < trials then
        (let r = random_integer (count_pred psum) (rnd pos);
             v = binarySearch weight r 0 (upperNodeIdBound G)
         in if upperNodeIdBound G \<le> v then Some (Inl (DegreeOutOfRange v))
            else if degree G v < 2 then
              approxGlobal_loop G rnd psum weight trials k (pos + 1) triangles
            else
              (let u = randomNeighbor G v (rnd (pos + 1));
                   w = randomNeighbor G v (rnd (pos + 2))
               in case redraw G rnd v u w (pos + 3) of
                    None \<Rightarrow> None
                  | Some (w', pos') \<Rightarrow>
                      approxGlobal_loop G rnd psum weight trials (k + 1) pos'
                        (if hasEdge G u w' then triangles + 1 else triangles)))
      else Some (Inr triangles))"

declare approxGlobal_loop.simps [code]

definition approxGlobal :: "graph \<Rightarrow> (nat \<Rightarrow> nat) \<Rightarrow> nat \<Rightarrow> (fault + double) option" where
  "approxGlobal G rnd trials =
     (let (psum, weight) = prefixWeights G
      in estimate trials (approxGlobal_loop G rnd psum weight trials 0 0 0))"

section \<open>Counted trials\<close>

text \<open>
  The node that a trial of \<open>approxAvgLocal\<close> draws at a position of the random source, and
  the node that \<open>approxGlobal\<close> samples there by the binary search over the prefix sums
  (no node when the search ends outside the id range).
\<close>

definition avgLocal_draw :: "graph \<Rightarrow> (nat \<Rightarrow> nat) \<Rightarrow> nat \<Rightarrow> nat option" where
  "avgLocal_draw G rnd pos = randomNode G (rnd pos)"

definition weighted_node :: "graph \<Rightarrow> nat \<Rightarrow> nat list \<Rightarrow> nat \<Rightarrow> nat option" where
  "weighted_node G psum weight x =
     (let v = binarySearch weight (random_integer (count_pred psum) x) 0 (upperNodeIdBound G)
      in if upperNodeIdBound G \<le> v then None else Some v)"

definition weighted_draw :: "graph \<Rightarrow> (nat \<Rightarrow> nat) \<Rightarrow> nat \<Rightarrow> nat list \<Rightarrow> nat \<Rightarrow> nat option" where
  "weighted_draw G rnd psum weight pos = weighted_node G psum weight (rnd pos)"

definition global_draw :: "graph \<Rightarrow> (nat \<Rightarrow> nat) \<Rightarrow> nat \<Rightarrow> nat option" where
  "global_draw G rnd = weighted_draw G rnd (fst (prefixWeights G)) (snd (prefixWeights G))"

text \<open>
  One counted trial, in the words of the specification: starting at position \<open>pos\<close>, node
  draws of degree below two are discarded; the first node \<open>v\<close> of degree at least two is
  kept, two neighbours of \<open>v\<close> are drawn and the second is redrawn until it differs from
  the first; \<open>hit\<close> tells whether the two neighbours are adjacent and \<open>pos'\<close> is the
  position of the random source after the trial.  A discarded draw belongs to the trial
  that follows it.
\<close>

inductive counted_trial ::
  "graph \<Rightarrow> (nat \<Rightarrow> nat) \<Rightarrow> (nat \<Rightarrow> nat option) \<Rightarrow> nat \<Rightarrow> bool \<Rightarrow> nat \<Rightarrow> bool"
  for G rnd draw where
  discarded:
    "draw pos = Some v \<Longrightarrow> degree G v < 2 \<Longrightarrow> counted_trial G rnd draw (pos + 1) hit pos' \<Longrightarrow>
     counted_trial G rnd draw pos hit pos'"
| kept:
    "draw pos = Some v \<Longrightarrow> 2 \<le> degree G v \<Longrightarrow>
     redraw G rnd v (randomNeighbor G v (rnd (pos + 1))) (randomNeighbor G v (rnd (pos + 2)))
       (pos + 3) = Some (w, pos') \<Longrightarrow>
     counted_trial G rnd draw pos (hasEdge G (randomNeighbor G v (rnd (pos + 1))) w) pos'"

text \<open>\<open>n\<close> counted trials in a row, from position \<open>pos\<close> to position \<open>pos'\<close>, of which
  \<open>hits\<close> are hits.\<close>

inductive counted_trials ::
  "graph \<Rightarrow> (nat \<Rightarrow> nat) \<Rightarrow> (nat \<Rightarrow> nat option) \<Rightarrow> nat \<Rightarrow> nat \<Rightarrow> nat \<Rightarrow> nat \<Rightarrow> bool"
  for G rnd draw where
  no_trial: "counted_trials G rnd draw pos 0 0 pos"
| next_trial:
    "counted_trial G rnd draw pos hit mid \<Longrightarrow> counted_trials G rnd draw mid n hits pos' \<Longrightarrow>
     counted_trials G rnd draw pos (Suc n) (if hit then hits + 1 else hits) pos'"

text \<open>
  Random sources under which every trial comes to an end: from every position on, every
  existing node is drawn again (for \<open>approxGlobal\<close>: every sample is a node inside the id
  range and every node of degree at least two is sampled again) and every neighbour of
  every node is drawn again.  The redraws can only end at a node of degree at least two
  that has two different neighbours.
\<close>

definition nodes_recur :: "graph \<Rightarrow> (nat \<Rightarrow> nat) \<Rightarrow> bool" where
  "nodes_recur G rnd =
     (\<forall>pos. \<forall>u\<in>set (nodes G). \<exists>n. avgLocal_draw G rnd (pos + n) = Some u)"

definition samples_recur :: "graph \<Rightarrow> (nat \<Rightarrow> nat) \<Rightarrow> bool" where
  "samples_recur G rnd =
     ((\<forall>pos. \<exists>v. global_draw G rnd pos = Some v) \<and>
      (\<forall>pos. \<forall>u\<in>set (nodes G). 2 \<le> degree G u \<longrightarrow>
          (\<exists>n. global_draw G rnd (pos + n) = Some u)))"

definition neighbours_recur :: "graph \<Rightarrow> (nat \<Rightarrow> nat) \<Rightarrow> bool" where
  "neighbours_recur G rnd =
     (\<forall>pos. \<forall>v\<in>set [0..<upperNodeIdBound G]. \<forall>w\<in>set (edgesOf G v).
         \<exists>n. randomNeighbor G v (rnd (pos + n)) = w)"

definition two_neighbours :: "graph \<Rightarrow> bool" where
  "two_neighbours G =
     (\<forall>v\<in>set [0..<upperNodeIdBound G]. 2 \<le> degree G v \<longrightarrow> 2 \<le> card (set (edgesOf G v)))"

section \<open>Reference quantities\<close>

text \<open>
  The number of triangles incident to \<open>u\<close>: the unordered pairs \<open>{v, w}\<close> of nodes other
  than \<open>u\<close> such that \<open>u\<close>, \<open>v\<close> and \<open>w\<close> are pairwise joined by an edge.
\<close>

definition incidentTriangles :: "graph \<Rightarrow> nat \<Rightarrow> nat" where
  "incidentTriangles G u =
     length (filter (\<lambda>(v, w). v < w \<and> v \<noteq> u \<and> w \<noteq> u \<and>
                       hasEdge G u v \<and> hasEdge G u w \<and> hasEdge G v w)
              (List.product (nodes G) (nodes G)))"

text \<open>
  The ratio that the specification gives for \<open>exactGlobal\<close>: the sum over all nodes of the
  per-node triangle counter, computed for the nodes of degree above one by the double edge
  traversal with the \<open>hasEdge\<close> test, divided by the sum over all nodes of
  \<open>degree(u) * (degree(u) - 1)\<close>.
\<close>

definition transitivity_ratio :: "graph \<Rightarrow> double" where
  "transitivity_ratio G =
     ddiv (real (\<Sum>u\<leftarrow>nodes G.
                   if degree G u > 1
                   then (\<Sum>v\<leftarrow>edgesOf G u. length (filter (\<lambda>w. hasEdge G u w) (edgesOf G v)))
                   else 0))
          (real (\<Sum>u\<leftarrow>nodes G. degree G u * (degree G u - 1)))"

section \<open>Example graphs\<close>

text \<open>A triangle; a single edge; a triangle whose edge opposite to node 0 is doubled; a
  triangle with a self-loop at each of the two neighbours of node 0; a triangle with a
  self-loop at node 0.\<close>

definition triangleGraph :: graph where
  "triangleGraph = \<lparr>exists = [True, True, True], adja = [[1, 2], [0, 2], [0, 1]]\<rparr>"

definition singleEdgeGraph :: graph where
  "singleEdgeGraph = \<lparr>exists = [True, True], adja = [[1], [0]]\<rparr>"

definition parallelEdgesGraph :: graph where
  "parallelEdgesGraph = \<lparr>exists = [True, True, True], adja = [[1, 2], [0, 2, 2], [0, 1, 1]]\<rparr>"

definition neighbourLoopsGraph :: graph where
  "neighbourLoopsGraph = \<lparr>exists = [True, True, True], adja = [[1, 2], [0, 1, 2], [0, 2, 1]]\<rparr>"

definition selfLoopGraph :: graph where
  "selfLoopGraph = \<lparr>exists = [True, True, True], adja = [[0, 1, 2], [0, 2], [0, 1]]\<rparr>"

text \<open>Two nodes joined by two parallel edges; a triangle followed by three ids whose nodes
  have been removed; a triangle with a pendant node attached to node 0.\<close>

definition doubledEdgeGraph :: graph where
  "doubledEdgeGraph = \<lparr>exists = [True, True], adja = [[1, 1], [0, 0]]\<rparr>"

definition gapGraph :: graph where
  "gapGraph = \<lparr>exists = [True, True, True, False, False, False],
                adja = [[1, 2], [0, 2], [0, 1], [], [], []]\<rparr>"

definition pawGraph :: graph where
  "pawGraph = \<lparr>exists = [True, True, True, True], adja = [[1, 2, 3], [0, 2], [0, 1], [0]]\<rparr>"

text \<open>A random source that repeats a finite list of raw draws.\<close>

definition periodic :: "nat list \<Rightarrow> nat \<Rightarrow> nat" where
  "periodic xs i = xs ! (i mod length xs)"

section \<open>The binary search\<close>

lemma binarySearch_collapsed: "binarySearch weight r middle middle = middle"
  by (subst binarySearch.simps) simp

lemma binarySearch_spec:
  assumes "sorted weight" and "low \<le> high" and "high \<le> length weight"
    and "\<forall>j<low. weight ! j < r"
    and "high < length weight \<longrightarrow> r < weight ! high"
    and "high = length weight \<longrightarrow> weight \<noteq> [] \<and> r < last weight"
  shows "binarySearch weight r low high < length weight \<and>
         r \<le> weight ! binarySearch weight r low high \<and>
         ((\<forall>j<binarySearch weight r low high. weight ! j < r) \<or>
          weight ! binarySearch weight r low high = r)"
  using assms
proof (induction weight r low high rule: binarySearch.induct)
  case (1 weight r low high)
  show ?case
  proof (cases "low < high")
    case False
    with "1.prems" have eq: "low = high" by simp
    have res: "binarySearch weight r low high = low"
      using False by (subst binarySearch.simps) simp
    have "low < length weight"
    proof (rule ccontr)
      assume "\<not> low < length weight"
      with "1.prems" eq have h: "high = length weight" by simp
      with "1.prems" have ne: "weight \<noteq> []" and lt: "r < last weight" by simp_all
      from ne have "length weight - 1 < low" "last weight = weight ! (length weight - 1)"
        using h eq by (simp_all add: last_conv_nth)
      with "1.prems"(4) lt show False by fastforce
    qed
    moreover from this "1.prems" eq have "r \<le> weight ! low" by simp
    ultimately show ?thesis using res "1.prems"(4) by simp
  next
    case True
    define middle where "middle = (low + high) div 2"
    have mid: "low \<le> middle" "middle < high" using True by (simp_all add: middle_def)
    then have midlen: "middle < length weight" using "1.prems" by simp
    consider (lt) "weight ! middle < r" | (gt) "r < weight ! middle" | (eq) "weight ! middle = r"
      by linarith
    then show ?thesis
    proof cases
      case lt
      have below: "\<forall>j<middle + 1. weight ! j < r"
      proof (intro allI impI)
        fix j assume "j < middle + 1"
        then have "weight ! j \<le> weight ! middle"
          using \<open>sorted weight\<close> midlen by (simp add: sorted_nth_mono)
        with lt show "weight ! j < r" by simp
      qed
      have res: "binarySearch weight r low high = binarySearch weight r (middle + 1) high"
        using True lt by (subst binarySearch.simps) (simp add: middle_def Let_def)
      show ?thesis
        unfolding res
        using "1.IH"(1) [OF True middle_def lt \<open>sorted weight\<close> _ "1.prems"(3) below "1.prems"(5,6)] mid
        by simp
    next
      case gt
      have nlt: "\<not> weight ! middle < r" using gt by simp
      have res: "binarySearch weight r low high = binarySearch weight r low middle"
        using True gt by (subst binarySearch.simps) (simp add: middle_def Let_def)
      have le: "middle \<le> length weight" using midlen by simp
      have hi: "middle < length weight \<longrightarrow> r < weight ! middle" using gt by simp
      have hi': "middle = length weight \<longrightarrow> weight \<noteq> [] \<and> r < last weight"
        using midlen by simp
      show ?thesis
        unfolding res
        using "1.IH"(2) [OF True middle_def nlt gt \<open>sorted weight\<close> mid(1) le "1.prems"(4) hi hi']
        by simp
    next
      case eq
      have res: "binarySearch weight r low high = middle"
        using True eq
        by (subst binarySearch.simps) (simp add: middle_def Let_def binarySearch_collapsed)
      show ?thesis unfolding res using eq midlen by simp
    qed
  qed
qed

text \<open>
  Claim C4.  On a non-decreasing prefix-sum array whose last entry, the total mass, is
  above \<open>r\<close>, the binary search of \<open>approxGlobal\<close> ends at an index inside the id range
  whose entry is at least \<open>r\<close>; the index is the smallest one with that property, or its
  entry is equal to \<open>r\<close>.
\<close>

theorem binarySearch_finds:
  assumes "sorted weight" and "weight \<noteq> []" and "r < last weight"
  shows "binarySearch weight r 0 (length weight) < length weight \<and>
         r \<le> weight ! binarySearch weight r 0 (length weight) \<and>
         ((\<forall>j<binarySearch weight r 0 (length weight). weight ! j < r) \<or>
          weight ! binarySearch weight r 0 (length weight) = r)"
  using assms by (intro binarySearch_spec) simp_all

theorem binarySearch_finds_witness:
  "sorted [2, 4, 6 :: nat] \<and> [2, 4, 6 :: nat] \<noteq> [] \<and> (5 :: nat) < last [2, 4, 6] \<and>
   binarySearch [2, 4, 6] 5 0 (length [2, 4, 6 :: nat]) < length [2, 4, 6 :: nat] \<and>
   (5 :: nat) \<le> [2, 4, 6 :: nat] ! binarySearch [2, 4, 6] 5 0 (length [2, 4, 6 :: nat])"
proof -
  have h1: "sorted [2, 4, 6 :: nat]" by simp
  have h2: "[2, 4, 6 :: nat] \<noteq> []" by simp
  have h3: "(5 :: nat) < last [2, 4, 6]" by simp
  have v: "binarySearch [2, 4, 6] 5 0 (length [2, 4, 6 :: nat]) = 2" by code_simp
  show ?thesis using h1 h2 h3 binarySearch_finds [OF h1 h2 h3] by (simp add: v)
qed

section \<open>Loops over adjacency arrays and node arrays\<close>

lemma fold_insert_neq:
  "fold (\<lambda>v s. if v \<noteq> u then insert v s else s) xs S = S \<union> (set xs - {u})"
  by (induction xs arbitrary: S) auto

lemma uNeighbors_eq: "uNeighbors G u = set (edgesOf G u) - {u}"
  by (simp add: uNeighbors_def fold_insert_neq)

lemma fold_count:
  "fold (\<lambda>w t. if P w then t + 1 else t) xs (t :: nat) = t + length (filter P xs)"
  by (induction xs arbitrary: t) auto

lemma fold_add:
  "fold (\<lambda>v t. t + f v) xs (t :: nat) = t + sum_list (map f xs)"
  by (induction xs arbitrary: t) auto

lemma fold_fold_count:
  "fold (\<lambda>v. fold (\<lambda>w t. if P w then t + 1 else t) (g v)) xs (t :: nat) =
     t + (\<Sum>v\<leftarrow>xs. length (filter P (g v)))"
  by (induction xs arbitrary: t) (auto simp: fold_count)

lemma localTriangles_sum:
  "localTriangles G u =
     (\<Sum>v\<leftarrow>edgesOf G u. length (filter (\<lambda>w. w \<in> uNeighbors G u) (edgesOf G v)))"
  by (simp add: localTriangles_def fold_fold_count)

lemma globalTriangles_sum:
  "globalTriangles G u =
     (if degree G u > 1
      then (\<Sum>v\<leftarrow>edgesOf G u. length (filter (\<lambda>w. hasEdge G u w) (edgesOf G v)))
      else 0)"
  by (simp add: globalTriangles_def fold_fold_count)

lemma fold_update_length:
  "length (fold (\<lambda>u c. c[u := f u]) xs c) = length c"
  by (induction xs arbitrary: c) auto

lemma fold_update_nth:
  "i < length c \<Longrightarrow>
   fold (\<lambda>u c. c[u := f u]) xs c ! i = (if i \<in> set xs then f i else c ! i)"
  by (induction xs arbitrary: c) (auto simp: nth_list_update)

lemma set_nodes: "set (nodes G) = {v. v < upperNodeIdBound G \<and> exists G ! v}"
  by (auto simp: nodes_def)

lemma distinct_nodes: "distinct (nodes G)"
  by (simp add: nodes_def)

lemma length_exactLocal: "length (exactLocal G) = upperNodeIdBound G"
  by (simp add: exactLocal_def fold_update_length)

lemma exactLocal_nth:
  "u < upperNodeIdBound G \<Longrightarrow>
   exactLocal G ! u = (if exists G ! u then localCoefficient G u else 0)"
  by (simp add: exactLocal_def fold_update_nth set_nodes)

lemma exactLocal_node:
  "u \<in> set (nodes G) \<Longrightarrow> exactLocal G ! u = localCoefficient G u"
  by (simp add: exactLocal_nth set_nodes)

section \<open>Triangles in graphs without self-loops and parallel edges\<close>

lemma wf_edge:
  assumes "wf_graph G" and "v < upperNodeIdBound G" and "hasEdge G v w"
  shows "w < upperNodeIdBound G \<and> exists G ! v \<and> exists G ! w \<and> hasEdge G w v"
proof -
  have "v \<in> set [0..<upperNodeIdBound G]" using assms(2) by simp
  moreover have "w \<in> set (edgesOf G v)" using assms(3) by (simp add: hasEdge_def)
  ultimately show ?thesis using assms(1) unfolding wf_graph_def by blast
qed

lemma simple_node:
  assumes "simple_graph G" and "v < upperNodeIdBound G"
  shows "distinct (edgesOf G v) \<and> \<not> hasEdge G v v"
proof -
  have "v \<in> set [0..<upperNodeIdBound G]" using assms(2) by simp
  then show ?thesis using assms(1) unfolding simple_graph_def hasEdge_def by blast
qed

lemma length_filter_distinct:
  "distinct xs \<Longrightarrow> length (filter P xs) = card {x \<in> set xs. P x}"
proof -
  assume "distinct xs"
  then have "distinct (filter P xs)" by simp
  then have "card (set (filter P xs)) = length (filter P xs)" by (rule distinct_card)
  then show ?thesis by simp
qed

lemma inner_count_le:
  assumes wf: "wf_graph G" and simple: "simple_graph G"
    and u: "u < upperNodeIdBound G" and v: "hasEdge G u v"
  shows "length (filter (\<lambda>w. w \<in> uNeighbors G u) (edgesOf G v)) \<le> degree G u - 1"
proof -
  have vz: "v < upperNodeIdBound G" using wf_edge [OF wf u v] by simp
  have vu: "v \<noteq> u" using simple_node [OF simple u] v by auto
  have vN: "v \<in> uNeighbors G u" using v vu by (simp add: uNeighbors_eq hasEdge_def)
  have fin: "finite (uNeighbors G u)" by (simp add: uNeighbors_eq)
  have dv: "distinct (edgesOf G v)" and nv: "v \<notin> set (edgesOf G v)"
    using simple_node [OF simple vz] by (simp_all add: hasEdge_def)
  have "length (filter (\<lambda>w. w \<in> uNeighbors G u) (edgesOf G v))
        = card {w \<in> set (edgesOf G v). w \<in> uNeighbors G u}"
    using dv by (rule length_filter_distinct)
  also have "\<dots> \<le> card (uNeighbors G u - {v})"
  proof (rule card_mono)
    show "finite (uNeighbors G u - {v})" using fin by simp
    show "{w \<in> set (edgesOf G v). w \<in> uNeighbors G u} \<subseteq> uNeighbors G u - {v}"
      using nv by blast
  qed
  also have "\<dots> = card (uNeighbors G u) - 1" using vN fin by simp
  also have "\<dots> \<le> degree G u - 1"
  proof -
    have "card (uNeighbors G u) \<le> card (set (edgesOf G u))"
      unfolding uNeighbors_eq by (rule card_mono) simp_all
    also have "\<dots> \<le> degree G u" unfolding degree_def by (rule card_length)
    finally show ?thesis by simp
  qed
  finally show ?thesis .
qed

lemma localTriangles_le:
  assumes wf: "wf_graph G" and simple: "simple_graph G" and u: "u < upperNodeIdBound G"
  shows "localTriangles G u \<le> degree G u * (degree G u - 1)"
proof -
  have "localTriangles G u \<le> (\<Sum>v\<leftarrow>edgesOf G u. degree G u - 1)"
    unfolding localTriangles_sum
  proof (rule sum_list_mono)
    fix v assume "v \<in> set (edgesOf G u)"
    then have "hasEdge G u v" by (simp add: hasEdge_def)
    then show "length (filter (\<lambda>w. w \<in> uNeighbors G u) (edgesOf G v)) \<le> degree G u - 1"
      by (rule inner_count_le [OF wf simple u])
  qed
  also have "\<dots> = degree G u * (degree G u - 1)"
    by (simp add: sum_list_triv degree_def)
  finally show ?thesis .
qed

lemma localCoefficient_range:
  assumes wf: "wf_graph G" and simple: "simple_graph G" and u: "u < upperNodeIdBound G"
  shows "0 \<le> localCoefficient G u \<and> localCoefficient G u \<le> 1"
proof (cases "degree G u < 2")
  case True
  then show ?thesis by (simp add: localCoefficient_def)
next
  case False
  then have pos: "0 < real (degree G u * (degree G u - 1))" by simp
  have le: "real (localTriangles G u) \<le> real (degree G u * (degree G u - 1))"
    using localTriangles_le [OF wf simple u] by (simp only: of_nat_le_iff)
  have "real (localTriangles G u) / real (degree G u * (degree G u - 1)) \<le> 1"
    using pos le by (simp only: divide_le_eq_1_pos)
  moreover have "0 \<le> real (localTriangles G u) / real (degree G u * (degree G u - 1))"
    by (rule divide_nonneg_nonneg) simp_all
  ultimately show ?thesis using False by (simp add: localCoefficient_def Let_def)
qed

lemma card_sym_pairs:
  fixes A :: "(nat \<times> nat) set"
  assumes fin: "finite A" and sym: "\<And>v w. (v, w) \<in> A \<Longrightarrow> (w, v) \<in> A"
    and irr: "\<And>v. (v, v) \<notin> A"
  shows "card A = 2 * card {(v, w). (v, w) \<in> A \<and> v < w}"
proof -
  define B where "B = {(v, w). (v, w) \<in> A \<and> v < w}"
  define C where "C = {(v, w). (v, w) \<in> A \<and> w < v}"
  have BA: "B \<subseteq> A" and CA: "C \<subseteq> A" by (auto simp: B_def C_def)
  have finB: "finite B" and finC: "finite C"
    using fin BA CA by (auto intro: finite_subset)
  have un: "A = B \<union> C"
  proof
    show "A \<subseteq> B \<union> C"
    proof
      fix p assume p: "p \<in> A"
      obtain v w where vw: "p = (v, w)" by (cases p)
      with p irr have "v \<noteq> w" by auto
      then have "v < w \<or> w < v" by auto
      with p vw show "p \<in> B \<union> C" by (auto simp: B_def C_def)
    qed
    show "B \<union> C \<subseteq> A" using BA CA by blast
  qed
  have disj: "B \<inter> C = {}" by (auto simp: B_def C_def)
  have img: "C = prod.swap ` B"
  proof
    show "C \<subseteq> prod.swap ` B"
    proof
      fix p assume p: "p \<in> C"
      obtain v w where vw: "p = (v, w)" by (cases p)
      with p have "(v, w) \<in> A" "w < v" by (auto simp: C_def)
      then have "(w, v) \<in> B" using sym by (auto simp: B_def)
      then have "prod.swap (w, v) \<in> prod.swap ` B" by (rule imageI)
      then show "p \<in> prod.swap ` B" using vw by simp
    qed
    show "prod.swap ` B \<subseteq> C" using sym by (auto simp: B_def C_def)
  qed
  have "card C = card B" unfolding img by (rule card_image) simp
  moreover have "card A = card B + card C"
    unfolding un using finB finC disj by (rule card_Un_disjoint)
  ultimately show ?thesis by (simp add: B_def)
qed

lemma localTriangles_card:
  assumes wf: "wf_graph G" and simple: "simple_graph G" and u: "u < upperNodeIdBound G"
  shows "localTriangles G u =
         card {(v, w). hasEdge G u v \<and> hasEdge G u w \<and> hasEdge G v w}"
proof -
  define N where "N = set (edgesOf G u)"
  have uN: "u \<notin> N" and du: "distinct (edgesOf G u)"
    using simple_node [OF simple u] by (simp_all add: N_def hasEdge_def)
  have nbs: "uNeighbors G u = N" using uN by (simp add: uNeighbors_eq N_def)
  have inner: "length (filter (\<lambda>w. w \<in> N) (edgesOf G v)) = card {w. hasEdge G v w \<and> w \<in> N}"
    if "v \<in> N" for v
  proof -
    have "hasEdge G u v" using that by (simp add: N_def hasEdge_def)
    then have "v < upperNodeIdBound G" using wf_edge [OF wf u] by simp
    then have "distinct (edgesOf G v)" using simple_node [OF simple] by simp
    then show ?thesis by (simp add: length_filter_distinct hasEdge_def)
  qed
  have "localTriangles G u = (\<Sum>v\<in>N. length (filter (\<lambda>w. w \<in> N) (edgesOf G v)))"
    unfolding localTriangles_sum nbs N_def using du
    by (rule sum_list_distinct_conv_sum_set)
  also have "\<dots> = (\<Sum>v\<in>N. card {w. hasEdge G v w \<and> w \<in> N})"
    by (rule sum.cong) (simp_all add: inner)
  also have "\<dots> = card (SIGMA v:N. {w. hasEdge G v w \<and> w \<in> N})"
    by (rule card_SigmaI [symmetric]) (simp_all add: N_def)
  also have "(SIGMA v:N. {w. hasEdge G v w \<and> w \<in> N})
             = {(v, w). hasEdge G u v \<and> hasEdge G u w \<and> hasEdge G v w}"
    by (auto simp: N_def hasEdge_def)
  finally show ?thesis .
qed

lemma incidentTriangles_card:
  assumes wf: "wf_graph G" and simple: "simple_graph G" and u: "u < upperNodeIdBound G"
  shows "incidentTriangles G u =
         card {(v, w). (v, w) \<in> {(v, w). hasEdge G u v \<and> hasEdge G u w \<and> hasEdge G v w} \<and> v < w}"
proof -
  have node: "v \<in> set (nodes G) \<and> v \<noteq> u" if "hasEdge G u v" for v
  proof -
    have "v < upperNodeIdBound G \<and> exists G ! v" using wf_edge [OF wf u that] by simp
    moreover have "v \<noteq> u" using simple_node [OF simple u] that by auto
    ultimately show ?thesis by (simp add: set_nodes)
  qed
  have "distinct (List.product (nodes G) (nodes G))"
    by (simp add: distinct_product distinct_nodes)
  then have "incidentTriangles G u =
      card {p \<in> set (List.product (nodes G) (nodes G)).
              (\<lambda>(v, w). v < w \<and> v \<noteq> u \<and> w \<noteq> u \<and>
                       hasEdge G u v \<and> hasEdge G u w \<and> hasEdge G v w) p}"
    unfolding incidentTriangles_def by (rule length_filter_distinct)
  also have "{p \<in> set (List.product (nodes G) (nodes G)).
              (\<lambda>(v, w). v < w \<and> v \<noteq> u \<and> w \<noteq> u \<and>
                       hasEdge G u v \<and> hasEdge G u w \<and> hasEdge G v w) p}
           = {(v, w). (v, w) \<in> {(v, w). hasEdge G u v \<and> hasEdge G u w \<and> hasEdge G v w} \<and> v < w}"
    using node by auto
  finally show ?thesis .
qed

lemma localTriangles_twice:
  assumes wf: "wf_graph G" and simple: "simple_graph G" and u: "u < upperNodeIdBound G"
  shows "localTriangles G u = 2 * incidentTriangles G u"
proof -
  define A where "A = {(v, w). hasEdge G u v \<and> hasEdge G u w \<and> hasEdge G v w}"
  have sub: "A \<subseteq> set (edgesOf G u) \<times> set (edgesOf G u)"
    by (auto simp: A_def hasEdge_def)
  have fin: "finite A" by (rule finite_subset [OF sub]) simp
  have sym: "(w, v) \<in> A" if "(v, w) \<in> A" for v w
  proof -
    from that have uv: "hasEdge G u v" and uw: "hasEdge G u w" and vw: "hasEdge G v w"
      by (simp_all add: A_def)
    have "v < upperNodeIdBound G" using wf_edge [OF wf u uv] by simp
    then have "hasEdge G w v" using wf_edge [OF wf _ vw] by simp
    with uv uw show ?thesis by (simp add: A_def)
  qed
  have irr: "(v, v) \<notin> A" for v
  proof
    assume "(v, v) \<in> A"
    then have uv: "hasEdge G u v" and vv: "hasEdge G v v" by (simp_all add: A_def)
    have "v < upperNodeIdBound G" using wf_edge [OF wf u uv] by simp
    then show False using simple_node [OF simple] vv by simp
  qed
  have "localTriangles G u = card A"
    unfolding A_def by (rule localTriangles_card [OF wf simple u])
  also have "\<dots> = 2 * card {(v, w). (v, w) \<in> A \<and> v < w}"
    using fin sym irr by (rule card_sym_pairs)
  also have "card {(v, w). (v, w) \<in> A \<and> v < w} = incidentTriangles G u"
    unfolding A_def by (rule incidentTriangles_card [OF wf simple u, symmetric])
  finally show ?thesis .
qed

section \<open>Aggregation\<close>

lemma fold_avgLocal_step:
  "fold (avgLocal_step G c) xs (s, n) =
     (s + (\<Sum>u\<leftarrow>filter (\<lambda>u. 2 \<le> degree G u) xs. c ! u),
      n + length (filter (\<lambda>u. 2 \<le> degree G u) xs))"
  by (induction xs arbitrary: s n) (simp_all add: avgLocal_step_def)

lemma avgLocal_eq:
  "avgLocal G =
     ddiv (\<Sum>u\<leftarrow>filter (\<lambda>u. 2 \<le> degree G u) (nodes G). exactLocal G ! u)
          (real (length (filter (\<lambda>u. 2 \<le> degree G u) (nodes G))))"
  by (simp add: avgLocal_def fold_avgLocal_step)

lemma parallelSum_fold:
  "fold (\<lambda>u sum. sum + real (f u)) xs a = a + real (sum_list (map f xs))"
  by (induction xs arbitrary: a) simp_all

lemma parallelSumForNodes_eq:
  "parallelSumForNodes s f = real (sum_list (map f s))"
  by (simp add: parallelSumForNodes_def parallelSum_fold)

lemma sum_list_mset_cong:
  fixes f :: "nat \<Rightarrow> nat"
  assumes "mset s = mset t"
  shows "sum_list (map f s) = sum_list (map f t)"
proof -
  have "sum_list (map f s) = sum_mset (image_mset f (mset s))"
    by (simp add: sum_mset_sum_list [symmetric])
  also have "\<dots> = sum_mset (image_mset f (mset t))" using assms by simp
  also have "\<dots> = sum_list (map f t)" by (simp add: sum_mset_sum_list [symmetric])
  finally show ?thesis .
qed

lemma exactGlobal_scheduled_eq:
  assumes s1: "valid_schedule G s1" and s2: "valid_schedule G s2" and s3: "valid_schedule G s3"
  shows "exactGlobal_scheduled G s1 s2 s3 =
         ddiv (real (\<Sum>u\<leftarrow>nodes G. globalTriangles G u))
              (real (\<Sum>u\<leftarrow>nodes G. degree G u * (degree G u - 1)))"
proof -
  define triangles where
    "triangles = fold (\<lambda>u triangles. triangles[u := globalTriangles G u]) s1
                   (replicate (upperNodeIdBound G) 0)"
  have set1: "set s1 = set (nodes G)" using s1 unfolding valid_schedule_def by (rule mset_eq_setD)
  have entry: "triangles ! u = globalTriangles G u" if "u \<in> set (nodes G)" for u
  proof -
    have "u < upperNodeIdBound G" using that by (simp add: set_nodes)
    then show ?thesis using that set1 by (simp add: triangles_def fold_update_nth)
  qed
  have "(\<Sum>u\<leftarrow>s3. triangles ! u) = (\<Sum>u\<leftarrow>nodes G. triangles ! u)"
    using s3 unfolding valid_schedule_def by (rule sum_list_mset_cong)
  also have "\<dots> = (\<Sum>u\<leftarrow>nodes G. globalTriangles G u)"
    by (rule arg_cong [where f = sum_list], rule map_cong) (simp_all add: entry)
  finally have num: "(\<Sum>u\<leftarrow>s3. triangles ! u) = (\<Sum>u\<leftarrow>nodes G. globalTriangles G u)" .
  have den: "(\<Sum>u\<leftarrow>s2. degree G u * (degree G u - 1))
             = (\<Sum>u\<leftarrow>nodes G. degree G u * (degree G u - 1))"
    using s2 unfolding valid_schedule_def by (rule sum_list_mset_cong)
  have "exactGlobal_scheduled G s1 s2 s3
        = ddiv (real (\<Sum>u\<leftarrow>s3. triangles ! u)) (real (\<Sum>u\<leftarrow>s2. degree G u * (degree G u - 1)))"
    unfolding exactGlobal_scheduled_def Let_def parallelSumForNodes_eq triangles_def ..
  then show ?thesis unfolding num den .
qed

lemma valid_schedule_nodes: "valid_schedule G (nodes G)"
  by (simp add: valid_schedule_def)

lemma transitivity_ratio_eq:
  "transitivity_ratio G =
     ddiv (real (\<Sum>u\<leftarrow>nodes G. globalTriangles G u))
          (real (\<Sum>u\<leftarrow>nodes G. degree G u * (degree G u - 1)))"
  unfolding transitivity_ratio_def globalTriangles_sum ..

section \<open>The exact estimators\<close>

text \<open>
  Claim C1.  In a graph without self-loops and without parallel edges, at every existing
  node \<open>u\<close> of degree \<open>d \<ge> 2\<close> the triangle counter of \<open>exactLocal\<close> is twice the number of
  triangles incident to \<open>u\<close> and the entry at \<open>u\<close> is the counter divided by \<open>d * (d - 1)\<close>;
  at every existing node of degree below two the entry is \<open>0.0\<close>.
\<close>

theorem exactLocal_simple_graph:
  assumes "wf_graph G" and "simple_graph G" and "u \<in> set (nodes G)"
  shows "(2 \<le> degree G u \<longrightarrow>
            localTriangles G u = 2 * incidentTriangles G u \<and>
            exactLocal G ! u =
              real (localTriangles G u) / real (degree G u * (degree G u - 1))) \<and>
         (degree G u < 2 \<longrightarrow> exactLocal G ! u = 0)"
proof -
  have u: "u < upperNodeIdBound G" using assms(3) by (simp add: set_nodes)
  have "localTriangles G u = 2 * incidentTriangles G u"
    using assms(1,2) u by (rule localTriangles_twice)
  moreover have "exactLocal G ! u = localCoefficient G u"
    using assms(3) by (rule exactLocal_node)
  ultimately show ?thesis by (simp add: localCoefficient_def Let_def)
qed

theorem exactLocal_simple_graph_witness:
  "wf_graph triangleGraph \<and> simple_graph triangleGraph \<and> 0 \<in> set (nodes triangleGraph) \<and>
   2 \<le> degree triangleGraph 0 \<and> incidentTriangles triangleGraph 0 = 1 \<and>
   localTriangles triangleGraph 0 = 2 * incidentTriangles triangleGraph 0 \<and>
   exactLocal triangleGraph ! 0 = 1 \<and>
   wf_graph singleEdgeGraph \<and> simple_graph singleEdgeGraph \<and>
   0 \<in> set (nodes singleEdgeGraph) \<and> degree singleEdgeGraph 0 < 2 \<and>
   exactLocal singleEdgeGraph ! 0 = 0"
proof -
  have t1: "wf_graph triangleGraph" by code_simp
  have t2: "simple_graph triangleGraph" by code_simp
  have t3: "0 \<in> set (nodes triangleGraph)" by code_simp
  have t4: "2 \<le> degree triangleGraph 0" by code_simp
  have t5: "incidentTriangles triangleGraph 0 = 1" by code_simp
  have t6: "real (localTriangles triangleGraph 0) /
              real (degree triangleGraph 0 * (degree triangleGraph 0 - 1)) = 1"
    by code_simp
  have e1: "wf_graph singleEdgeGraph" by code_simp
  have e2: "simple_graph singleEdgeGraph" by code_simp
  have e3: "0 \<in> set (nodes singleEdgeGraph)" by code_simp
  have e4: "degree singleEdgeGraph 0 < 2" by code_simp
  show ?thesis
    using exactLocal_simple_graph [OF t1 t2 t3] exactLocal_simple_graph [OF e1 e2 e3]
      t1 t2 t3 t4 t5 t6 e1 e2 e3 e4
    by simp
qed

text \<open>
  Claim C8, amended.  In a graph without self-loops and without parallel edges every entry
  of the array returned by \<open>exactLocal\<close> lies in \<open>[0, 1]\<close>; in every graph the entry at a node
  of degree below two is \<open>0.0\<close>.
\<close>

theorem exactLocal_range_simple:
  "(wf_graph G \<and> simple_graph G \<longrightarrow>
      (\<forall>i<length (exactLocal G). 0 \<le> exactLocal G ! i \<and> exactLocal G ! i \<le> 1)) \<and>
   (\<forall>u\<in>set (nodes G). degree G u < 2 \<longrightarrow> exactLocal G ! u = 0)"
proof -
  have range: "0 \<le> exactLocal G ! i \<and> exactLocal G ! i \<le> 1"
    if "wf_graph G" and "simple_graph G" and "i < length (exactLocal G)" for i
  proof -
    have i: "i < upperNodeIdBound G" using that(3) by (simp add: length_exactLocal)
    show ?thesis
      using localCoefficient_range [OF that(1,2) i] by (simp add: exactLocal_nth [OF i])
  qed
  have zero: "exactLocal G ! u = 0" if "u \<in> set (nodes G)" and "degree G u < 2" for u
    using that by (simp add: exactLocal_node localCoefficient_def)
  show ?thesis using range zero by blast
qed

theorem exactLocal_range_simple_witness:
  "wf_graph triangleGraph \<and> simple_graph triangleGraph \<and>
   2 < length (exactLocal triangleGraph) \<and>
   0 \<le> exactLocal triangleGraph ! 2 \<and> exactLocal triangleGraph ! 2 \<le> 1 \<and>
   0 \<in> set (nodes singleEdgeGraph) \<and> degree singleEdgeGraph 0 < 2 \<and>
   exactLocal singleEdgeGraph ! 0 = 0"
proof -
  have t1: "wf_graph triangleGraph" by code_simp
  have t2: "simple_graph triangleGraph" by code_simp
  have t3: "2 < length (exactLocal triangleGraph)" by code_simp
  have e3: "0 \<in> set (nodes singleEdgeGraph)" by code_simp
  have e4: "degree singleEdgeGraph 0 < 2" by code_simp
  show ?thesis
    using exactLocal_range_simple [of triangleGraph] exactLocal_range_simple [of singleEdgeGraph]
      t1 t2 t3 e3 e4
    by blast
qed

text \<open>
  Claim C8 as stated fails: with a doubled edge between the two neighbours of node 0, and
  likewise with a self-loop at each of these neighbours, the entry at node 0 is \<open>2\<close>.
\<close>

theorem exactLocal_range_counterexample:
  "wf_graph parallelEdgesGraph \<and> exactLocal parallelEdgesGraph ! 0 = 2 \<and>
   \<not> exactLocal parallelEdgesGraph ! 0 \<le> 1 \<and>
   wf_graph neighbourLoopsGraph \<and> exactLocal neighbourLoopsGraph ! 0 = 2 \<and>
   \<not> exactLocal neighbourLoopsGraph ! 0 \<le> 1"
proof -
  have p1: "wf_graph parallelEdgesGraph" by code_simp
  have p2: "exactLocal parallelEdgesGraph ! 0 = 2" by code_simp
  have n1: "wf_graph neighbourLoopsGraph" by code_simp
  have n2: "exactLocal neighbourLoopsGraph ! 0 = 2" by code_simp
  show ?thesis using p1 p2 n1 n2 by simp
qed

lemma length_split_count:
  "length xs = length (filter (\<lambda>v. v \<noteq> u) xs) + count_list xs u"
  by (induction xs) auto

text \<open>
  Claim C9.  The neighbour set built for \<open>u\<close> does not contain \<open>u\<close>, so the counter only
  counts second legs \<open>(v, w)\<close> with \<open>w \<noteq> u\<close>; the degree of \<open>u\<close> counts the self-loop entries as
  well, so with a self-loop there are fewer neighbours in the set than the degree \<open>d\<close> that
  enters the denominator \<open>d * (d - 1)\<close> of the coefficient.
\<close>

theorem exactLocal_self_loop:
  "u \<notin> uNeighbors G u \<and>
   localTriangles G u =
     (\<Sum>v\<leftarrow>edgesOf G u. length (filter (\<lambda>w. w \<noteq> u \<and> hasEdge G u w) (edgesOf G v))) \<and>
   degree G u = length (filter (\<lambda>v. v \<noteq> u) (edgesOf G u)) + count_list (edgesOf G u) u \<and>
   (hasEdge G u u \<longrightarrow> card (uNeighbors G u) < degree G u) \<and>
   (u \<in> set (nodes G) \<and> 2 \<le> degree G u \<longrightarrow>
      exactLocal G ! u = real (localTriangles G u) / real (degree G u * (degree G u - 1)))"
proof -
  have a: "u \<notin> uNeighbors G u" by (simp add: uNeighbors_eq)
  have b: "localTriangles G u =
     (\<Sum>v\<leftarrow>edgesOf G u. length (filter (\<lambda>w. w \<noteq> u \<and> hasEdge G u w) (edgesOf G v)))"
    unfolding localTriangles_sum uNeighbors_eq hasEdge_def
    by (rule arg_cong [where f = sum_list], rule map_cong, rule refl,
        rule arg_cong [where f = length], rule filter_cong) auto
  have c: "degree G u = length (filter (\<lambda>v. v \<noteq> u) (edgesOf G u)) + count_list (edgesOf G u) u"
    unfolding degree_def by (rule length_split_count)
  have d: "card (uNeighbors G u) < degree G u" if "hasEdge G u u"
  proof -
    have "card (set (edgesOf G u) - {u}) < card (set (edgesOf G u))"
      using that by (intro card_Diff1_less) (simp_all add: hasEdge_def)
    also have "\<dots> \<le> degree G u" unfolding degree_def by (rule card_length)
    finally show ?thesis by (simp add: uNeighbors_eq)
  qed
  have e: "exactLocal G ! u = real (localTriangles G u) / real (degree G u * (degree G u - 1))"
    if "u \<in> set (nodes G)" and "2 \<le> degree G u"
    using that by (simp add: exactLocal_node localCoefficient_def Let_def)
  show ?thesis using a b c d e by blast
qed

theorem exactLocal_self_loop_witness:
  "hasEdge selfLoopGraph 0 0 \<and> 0 \<in> set (nodes selfLoopGraph) \<and> 2 \<le> degree selfLoopGraph 0 \<and>
   0 \<notin> uNeighbors selfLoopGraph 0 \<and>
   card (uNeighbors selfLoopGraph 0) < degree selfLoopGraph 0 \<and>
   exactLocal selfLoopGraph ! 0 =
     real (localTriangles selfLoopGraph 0) /
       real (degree selfLoopGraph 0 * (degree selfLoopGraph 0 - 1))"
proof -
  have h1: "hasEdge selfLoopGraph 0 0" by code_simp
  have h2: "0 \<in> set (nodes selfLoopGraph)" by code_simp
  have h3: "2 \<le> degree selfLoopGraph 0" by code_simp
  show ?thesis using exactLocal_self_loop [of 0 selfLoopGraph] h1 h2 h3 by blast
qed

text \<open>
  Claim C2.  Under every schedule of its three parallel loops \<open>exactGlobal\<close> returns the sum
  of the per-node triangle counters divided by the sum of \<open>degree(u) * (degree(u) - 1)\<close>
  over all nodes; two runs under different schedules return the same value.
\<close>

theorem exactGlobal_ratio_deterministic:
  assumes "valid_schedule G s1" and "valid_schedule G s2" and "valid_schedule G s3"
  shows "exactGlobal_scheduled G s1 s2 s3 = transitivity_ratio G \<and>
         exactGlobal_scheduled G s1 s2 s3 = exactGlobal G"
proof -
  have a: "exactGlobal_scheduled G s1 s2 s3 = transitivity_ratio G"
    unfolding transitivity_ratio_eq by (rule exactGlobal_scheduled_eq [OF assms])
  have b: "exactGlobal G = transitivity_ratio G"
    unfolding transitivity_ratio_eq exactGlobal_def
    by (rule exactGlobal_scheduled_eq [OF valid_schedule_nodes valid_schedule_nodes
          valid_schedule_nodes])
  show ?thesis using a b by simp
qed

theorem exactGlobal_ratio_deterministic_witness:
  "valid_schedule triangleGraph [2, 0, 1] \<and> valid_schedule triangleGraph [1, 2, 0] \<and>
   valid_schedule triangleGraph [0, 2, 1] \<and>
   exactGlobal_scheduled triangleGraph [2, 0, 1] [1, 2, 0] [0, 2, 1] = exactGlobal triangleGraph \<and>
   exactGlobal_scheduled triangleGraph [2, 0, 1] [1, 2, 0] [0, 2, 1] = Finite 1"
proof -
  have h1: "valid_schedule triangleGraph [2, 0, 1]" by code_simp
  have h2: "valid_schedule triangleGraph [1, 2, 0]" by code_simp
  have h3: "valid_schedule triangleGraph [0, 2, 1]" by code_simp
  have v: "transitivity_ratio triangleGraph = Finite 1" by code_simp
  have a: "exactGlobal_scheduled triangleGraph [2, 0, 1] [1, 2, 0] [0, 2, 1] = Finite 1"
    using exactGlobal_ratio_deterministic [OF h1 h2 h3, THEN conjunct1] v by (rule trans)
  have b: "exactGlobal_scheduled triangleGraph [2, 0, 1] [1, 2, 0] [0, 2, 1]
           = exactGlobal triangleGraph"
    by (rule exactGlobal_ratio_deterministic [OF h1 h2 h3, THEN conjunct2])
  show ?thesis using h1 h2 h3 a b by blast
qed

text \<open>
  Claim C6.  When some node has degree at least two, \<open>avgLocal\<close> returns the arithmetic mean
  of the entries of \<open>exactLocal\<close> over the nodes of degree at least two; when no node has,
  it returns not-a-number, and not \<open>0.0\<close>.
\<close>

theorem avgLocal_mean_or_nan:
  "((\<exists>u\<in>set (nodes G). 2 \<le> degree G u) \<longrightarrow>
      avgLocal G =
        Finite ((\<Sum>u\<leftarrow>filter (\<lambda>u. 2 \<le> degree G u) (nodes G). exactLocal G ! u)
                / real (length (filter (\<lambda>u. 2 \<le> degree G u) (nodes G))))) \<and>
   ((\<forall>u\<in>set (nodes G). degree G u < 2) \<longrightarrow> avgLocal G = NaN \<and> avgLocal G \<noteq> Finite 0)"
proof -
  have some: "avgLocal G =
        Finite ((\<Sum>u\<leftarrow>filter (\<lambda>u. 2 \<le> degree G u) (nodes G). exactLocal G ! u)
                / real (length (filter (\<lambda>u. 2 \<le> degree G u) (nodes G))))"
    if "\<exists>u\<in>set (nodes G). 2 \<le> degree G u"
  proof -
    have "filter (\<lambda>u. 2 \<le> degree G u) (nodes G) \<noteq> []"
      using that by (simp add: filter_empty_conv)
    then show ?thesis by (simp add: avgLocal_eq ddiv_def)
  qed
  have none: "avgLocal G = NaN \<and> avgLocal G \<noteq> Finite 0"
    if "\<forall>u\<in>set (nodes G). degree G u < 2"
  proof -
    have "filter (\<lambda>u. 2 \<le> degree G u) (nodes G) = []"
      using that by (auto simp: filter_empty_conv)
    then show ?thesis by (simp add: avgLocal_eq ddiv_def)
  qed
  show ?thesis using some none by blast
qed

theorem avgLocal_mean_or_nan_witness:
  "(\<exists>u\<in>set (nodes triangleGraph). 2 \<le> degree triangleGraph u) \<and>
   avgLocal triangleGraph = Finite 1 \<and>
   nodes singleEdgeGraph = [0, 1] \<and>
   degree singleEdgeGraph 0 < 2 \<and> degree singleEdgeGraph 1 < 2 \<and>
   avgLocal singleEdgeGraph = NaN"
proof -
  have h1: "\<exists>u\<in>set (nodes triangleGraph). 2 \<le> degree triangleGraph u" by code_simp
  have n: "nodes singleEdgeGraph = [0, 1]" by code_simp
  have d0: "degree singleEdgeGraph 0 < 2" by code_simp
  have d1: "degree singleEdgeGraph 1 < 2" by code_simp
  have h2: "\<forall>u\<in>set (nodes singleEdgeGraph). degree singleEdgeGraph u < 2"
    using d0 d1 by (simp add: n)
  have v: "Finite ((\<Sum>u\<leftarrow>filter (\<lambda>u. 2 \<le> degree triangleGraph u) (nodes triangleGraph).
                      exactLocal triangleGraph ! u)
                / real (length (filter (\<lambda>u. 2 \<le> degree triangleGraph u) (nodes triangleGraph))))
           = Finite 1"
    by code_simp
  have a: "avgLocal triangleGraph = Finite 1"
    using avgLocal_mean_or_nan [of triangleGraph] h1 v by simp
  have b: "avgLocal singleEdgeGraph = NaN"
    using avgLocal_mean_or_nan [of singleEdgeGraph] h2 by blast
  show ?thesis using h1 n d0 d1 a b by blast
qed

section \<open>Runs of the approximate estimators\<close>

lemma redraw_stuck:
  assumes "redraw G rnd v u w pos = Some y"
  shows "\<not> (w = u \<and> (\<forall>i. randomNeighbor G v (rnd (pos + i)) = u))"
proof (rule redraw.raw_induct
    [where P = "\<lambda>G rnd v u w pos y. \<not> (w = u \<and> (\<forall>i. randomNeighbor G v (rnd (pos + i)) = u))",
      OF _ assms])
  fix redraw' :: "graph \<Rightarrow> (nat \<Rightarrow> nat) \<Rightarrow> nat \<Rightarrow> nat \<Rightarrow> nat \<Rightarrow> nat \<Rightarrow> (nat \<times> nat) option"
  fix G rnd v u w pos y
  assume IH: "\<And>G rnd v u w pos y. redraw' G rnd v u w pos = Some y \<Longrightarrow>
                \<not> (w = u \<and> (\<forall>i. randomNeighbor G v (rnd (pos + i)) = u))"
    and step: "(if u = w then redraw' G rnd v u (randomNeighbor G v (rnd pos)) (pos + 1)
                else Some (w, pos)) = Some y"
  show "\<not> (w = u \<and> (\<forall>i. randomNeighbor G v (rnd (pos + i)) = u))"
  proof
    assume a: "w = u \<and> (\<forall>i. randomNeighbor G v (rnd (pos + i)) = u)"
    then have first: "randomNeighbor G v (rnd pos) = u"
      using a [THEN conjunct2, rule_format, of 0] by simp
    have later: "\<forall>i. randomNeighbor G v (rnd (pos + 1 + i)) = u"
    proof
      fix i
      show "randomNeighbor G v (rnd (pos + 1 + i)) = u"
        using a [THEN conjunct2, rule_format, of "Suc i"] by simp
    qed
    from step a first have "redraw' G rnd v u u (pos + 1) = Some y" by simp
    then have "\<not> (u = u \<and> (\<forall>i. randomNeighbor G v (rnd (pos + 1 + i)) = u))"
      by (rule IH)
    with later show False by simp
  qed
qed

lemma redraw_diverges:
  assumes "\<forall>i. randomNeighbor G v (rnd (pos + i)) = u"
  shows "redraw G rnd v u u pos = None"
proof (cases "redraw G rnd v u u pos")
  case None
  then show ?thesis .
next
  case (Some y)
  then show ?thesis using redraw_stuck [OF Some] assms by simp
qed

lemma redraw_distinct: "w \<noteq> u \<Longrightarrow> redraw G rnd v u w pos = Some (w, pos)"
  by (subst redraw.simps) simp

lemma redraw_after:
  assumes "\<forall>i<n. randomNeighbor G v (rnd (pos + i)) = u"
    and "randomNeighbor G v (rnd (pos + n)) \<noteq> u"
  shows "redraw G rnd v u u pos = Some (randomNeighbor G v (rnd (pos + n)), pos + n + 1)"
  using assms
proof (induction n arbitrary: pos)
  case 0
  then show ?case
    by (subst redraw.simps) (simp add: redraw_distinct)
next
  case (Suc n)
  have first: "randomNeighbor G v (rnd pos) = u" using Suc.prems(1) [rule_format, of 0] by simp
  have a: "\<forall>i<n. randomNeighbor G v (rnd (pos + 1 + i)) = u"
  proof (intro allI impI)
    fix i assume "i < n"
    then show "randomNeighbor G v (rnd (pos + 1 + i)) = u"
      using Suc.prems(1) [rule_format, of "Suc i"] by simp
  qed
  have b: "randomNeighbor G v (rnd (pos + 1 + n)) \<noteq> u" using Suc.prems(2) by simp
  have "redraw G rnd v u u pos = redraw G rnd v u u (pos + 1)"
    by (subst redraw.simps) (simp add: first)
  also have "\<dots> = Some (randomNeighbor G v (rnd (pos + 1 + n)), pos + 1 + n + 1)"
    using a b by (rule Suc.IH)
  finally show ?case by simp
qed

lemma approxGlobal_loop_cases:
  assumes step: "(if k < trials then
        (let r = random_integer (count_pred psum) (rnd pos);
             v = binarySearch weight r 0 (upperNodeIdBound G)
         in if upperNodeIdBound G \<le> v then Some (Inl (DegreeOutOfRange v))
            else if degree G v < 2 then
              loop G rnd psum weight trials k (pos + 1) t
            else
              (let u = randomNeighbor G v (rnd (pos + 1));
                   w = randomNeighbor G v (rnd (pos + 2))
               in case redraw G rnd v u w (pos + 3) of
                    None \<Rightarrow> None
                  | Some (w', pos') \<Rightarrow>
                      loop G rnd psum weight trials (k + 1) pos'
                        (if hasEdge G u w' then t + 1 else t)))
      else Some (Inr t)) = Some (y :: fault + nat)"
  and v: "v = binarySearch weight (random_integer (count_pred psum) (rnd pos)) 0 (upperNodeIdBound G)"
  obtains (finished) "\<not> k < trials" "y = Inr t"
    | (outside) "k < trials" "upperNodeIdBound G \<le> v" "y = Inl (DegreeOutOfRange v)"
    | (discard) "k < trials" "v < upperNodeIdBound G" "degree G v < 2"
        "loop G rnd psum weight trials k (pos + 1) t = Some y"
    | (trial) w' pos' where "k < trials" "v < upperNodeIdBound G" "2 \<le> degree G v"
        "loop G rnd psum weight trials (k + 1) pos' (if hasEdge G (randomNeighbor G v (rnd (pos + 1))) w' then t + 1 else t) = Some y"
proof (cases "k < trials")
  case False
  with step have "y = Inr t" by simp
  with False show ?thesis by (rule finished)
next
  case k: True
  show ?thesis
  proof (cases "upperNodeIdBound G \<le> v")
    case True
    with step k v have "y = Inl (DegreeOutOfRange v)" by (simp add: Let_def)
    with k True show ?thesis by (rule outside)
  next
    case False
    then have vz: "v < upperNodeIdBound G" by simp
    show ?thesis
    proof (cases "degree G v < 2")
      case True
      with step k v False have "loop G rnd psum weight trials k (pos + 1) t = Some y"
        by (simp add: Let_def)
      with k vz True show ?thesis by (rule discard)
    next
      case d: False
      with step k v False obtain w' pos' where
        "loop G rnd psum weight trials (k + 1) pos'
           (if hasEdge G (randomNeighbor G v (rnd (pos + 1))) w' then t + 1 else t) = Some y"
        by (auto simp: Let_def split: option.splits)
      moreover have "2 \<le> degree G v" using d by simp
      ultimately show ?thesis using k vz by (intro trial)
    qed
  qed
qed

lemma binarySearch_le: "low \<le> high \<Longrightarrow> binarySearch weight r low high \<le> high"
proof (induction weight r low high rule: binarySearch.induct)
  case (1 weight r low high)
  show ?case
  proof (cases "low < high")
    case False
    with "1.prems" show ?thesis by (subst binarySearch.simps) simp
  next
    case True
    define middle where "middle = (low + high) div 2"
    have mid: "low \<le> middle" "middle < high" using True by (simp_all add: middle_def)
    consider (lt) "weight ! middle < r" | (gt) "r < weight ! middle" | (eq) "weight ! middle = r"
      by linarith
    then show ?thesis
    proof cases
      case lt
      have "binarySearch weight r low high = binarySearch weight r (middle + 1) high"
        using True lt by (subst binarySearch.simps) (simp add: middle_def Let_def)
      moreover have "binarySearch weight r (middle + 1) high \<le> high"
        using "1.IH"(1) [OF True middle_def lt] mid by simp
      ultimately show ?thesis by simp
    next
      case gt
      have nlt: "\<not> weight ! middle < r" using gt by simp
      have "binarySearch weight r low high = binarySearch weight r low middle"
        using True gt by (subst binarySearch.simps) (simp add: middle_def Let_def)
      moreover have "binarySearch weight r low middle \<le> middle"
        using "1.IH"(2) [OF True middle_def nlt gt] mid by simp
      ultimately show ?thesis using mid by simp
    next
      case eq
      have "binarySearch weight r m m = m" for m
        by (subst binarySearch.simps) simp
      then have "binarySearch weight r low high = middle"
        using True eq by (subst binarySearch.simps) (simp add: middle_def Let_def)
      then show ?thesis using mid by simp
    qed
  qed
qed

lemma approxGlobal_loop_no_value:
  assumes run: "approxGlobal_loop G rnd psum weight trials k pos t = Some y"
    and low: "\<forall>v<upperNodeIdBound G. degree G v < 2"
  shows "k < trials \<longrightarrow> y = Inl (DegreeOutOfRange (upperNodeIdBound G))"
proof -
  have "(\<forall>v<upperNodeIdBound G. degree G v < 2) \<longrightarrow> k < trials \<longrightarrow>
        y = Inl (DegreeOutOfRange (upperNodeIdBound G))"
  proof (rule approxGlobal_loop.raw_induct
    [where P = "\<lambda>G rnd psum weight trials k pos t y.
                  (\<forall>v<upperNodeIdBound G. degree G v < 2) \<longrightarrow> k < trials \<longrightarrow>
                  y = Inl (DegreeOutOfRange (upperNodeIdBound G))",
      OF _ run])
    fix loop :: "graph \<Rightarrow> (nat \<Rightarrow> nat) \<Rightarrow> nat \<Rightarrow> nat list \<Rightarrow> nat \<Rightarrow> nat \<Rightarrow> nat \<Rightarrow> nat \<Rightarrow> (fault + nat) option"
    fix G rnd psum weight trials k pos t y
    assume IH: "\<And>G rnd psum weight trials k pos t y.
                loop G rnd psum weight trials k pos t = Some y \<Longrightarrow>
                (\<forall>v<upperNodeIdBound G. degree G v < 2) \<longrightarrow> k < trials \<longrightarrow>
                  y = Inl (DegreeOutOfRange (upperNodeIdBound G))"
    assume step: "(if k < trials then
        (let r = random_integer (count_pred psum) (rnd pos);
             v = binarySearch weight r 0 (upperNodeIdBound G)
         in if upperNodeIdBound G \<le> v then Some (Inl (DegreeOutOfRange v))
            else if degree G v < 2 then
              loop G rnd psum weight trials k (pos + 1) t
            else
              (let u = randomNeighbor G v (rnd (pos + 1));
                   w = randomNeighbor G v (rnd (pos + 2))
               in case redraw G rnd v u w (pos + 3) of
                    None \<Rightarrow> None
                  | Some (w', pos') \<Rightarrow>
                      loop G rnd psum weight trials (k + 1) pos'
                        (if hasEdge G u w' then t + 1 else t)))
      else Some (Inr t)) = Some y"
    from step refl
    show "(\<forall>v<upperNodeIdBound G. degree G v < 2) \<longrightarrow> k < trials \<longrightarrow>
                  y = Inl (DegreeOutOfRange (upperNodeIdBound G))"
    proof (cases rule: approxGlobal_loop_cases)
      case finished
      then show ?thesis by simp
    next
      case outside
      have "binarySearch weight (random_integer (count_pred psum) (rnd pos)) 0 (upperNodeIdBound G)
            \<le> upperNodeIdBound G"
        by (rule binarySearch_le) simp
      with outside show ?thesis by simp
    next
      case discard
      from IH [OF discard(4)] show ?thesis .
    next
      case (trial w' pos')
      from trial(2,3) show ?thesis by fastforce
    qed
  qed
  with low show ?thesis by simp
qed

lemma approxGlobal_loop_in_range:
  assumes run: "approxGlobal_loop G rnd psum weight trials k pos t = Some y"
    and inside: "\<forall>pos. binarySearch weight (random_integer (count_pred psum) (rnd pos)) 0
                    (upperNodeIdBound G) < upperNodeIdBound G"
  shows "\<forall>v. y \<noteq> Inl (DegreeOutOfRange v)"
proof -
  have "(\<forall>pos. binarySearch weight (random_integer (count_pred psum) (rnd pos)) 0
                    (upperNodeIdBound G) < upperNodeIdBound G) \<longrightarrow>
        (\<forall>v. y \<noteq> Inl (DegreeOutOfRange v))"
  proof (rule approxGlobal_loop.raw_induct
    [where P = "\<lambda>G rnd psum weight trials k pos t y.
       (\<forall>pos. binarySearch weight (random_integer (count_pred psum) (rnd pos)) 0
                    (upperNodeIdBound G) < upperNodeIdBound G) \<longrightarrow>
        (\<forall>v. y \<noteq> Inl (DegreeOutOfRange v))",
      OF _ run])
    fix loop :: "graph \<Rightarrow> (nat \<Rightarrow> nat) \<Rightarrow> nat \<Rightarrow> nat list \<Rightarrow> nat \<Rightarrow> nat \<Rightarrow> nat \<Rightarrow> nat \<Rightarrow> (fault + nat) option"
    fix G rnd psum weight trials k pos t y
    assume IH: "\<And>G rnd psum weight trials k pos t y.
                loop G rnd psum weight trials k pos t = Some y \<Longrightarrow>
                (\<forall>pos. binarySearch weight (random_integer (count_pred psum) (rnd pos)) 0
                    (upperNodeIdBound G) < upperNodeIdBound G) \<longrightarrow>
                (\<forall>v. y \<noteq> Inl (DegreeOutOfRange v))"
    assume step: "(if k < trials then
        (let r = random_integer (count_pred psum) (rnd pos);
             v = binarySearch weight r 0 (upperNodeIdBound G)
         in if upperNodeIdBound G \<le> v then Some (Inl (DegreeOutOfRange v))
            else if degree G v < 2 then
              loop G rnd psum weight trials k (pos + 1) t
            else
              (let u = randomNeighbor G v (rnd (pos + 1));
                   w = randomNeighbor G v (rnd (pos + 2))
               in case redraw G rnd v u w (pos + 3) of
                    None \<Rightarrow> None
                  | Some (w', pos') \<Rightarrow>
                      loop G rnd psum weight trials (k + 1) pos'
                        (if hasEdge G u w' then t + 1 else t)))
      else Some (Inr t)) = Some y"
    from step refl
    show "(\<forall>pos. binarySearch weight (random_integer (count_pred psum) (rnd pos)) 0
                    (upperNodeIdBound G) < upperNodeIdBound G) \<longrightarrow>
          (\<forall>v. y \<noteq> Inl (DegreeOutOfRange v))"
    proof (cases rule: approxGlobal_loop_cases)
      case finished
      then show ?thesis by simp
    next
      case outside
      show ?thesis
      proof
        assume "\<forall>pos. binarySearch weight (random_integer (count_pred psum) (rnd pos)) 0
                    (upperNodeIdBound G) < upperNodeIdBound G"
        then have "binarySearch weight (random_integer (count_pred psum) (rnd pos)) 0
                    (upperNodeIdBound G) < upperNodeIdBound G" by (rule spec)
        with outside(2) show "\<forall>v. y \<noteq> Inl (DegreeOutOfRange v)" by simp
      qed
    next
      case discard
      from IH [OF discard(4)] show ?thesis .
    next
      case (trial w' pos')
      from IH [OF trial(4)] show ?thesis .
    qed
  qed
  then show ?thesis using inside by (rule mp)
qed

lemma fst_fold_weight_step:
  "fst (fold (weight_step G) xs (p, w)) = p + (\<Sum>v\<leftarrow>xs. degree G v * (degree G v - 1))"
  by (induction xs arbitrary: p w) (simp_all add: weight_step_def Let_def)

lemma psum_eq: "fst (prefixWeights G) = (\<Sum>v\<leftarrow>nodes G. degree G v * (degree G v - 1))"
  by (simp add: prefixWeights_def fst_fold_weight_step)

lemma psum_zero:
  assumes "\<forall>u\<in>set (nodes G). degree G u < 2"
  shows "fst (prefixWeights G) = 0"
proof -
  have "degree G v * (degree G v - 1) = 0" if "v \<in> set (nodes G)" for v
  proof -
    have "degree G v < 2" using assms that by blast
    then have "degree G v = 0 \<or> degree G v = 1" by linarith
    then show ?thesis by auto
  qed
  then show ?thesis by (simp add: psum_eq)
qed

lemma wf_missing_degree:
  assumes wf: "wf_graph G" and v: "v < upperNodeIdBound G" and ne: "\<not> exists G ! v"
  shows "degree G v = 0"
proof (rule ccontr)
  assume "degree G v \<noteq> 0"
  then have "edgesOf G v \<noteq> []" by (simp add: degree_def)
  then obtain w where "w \<in> set (edgesOf G v)"
    by (cases "edgesOf G v") auto
  moreover have "v \<in> set [0..<upperNodeIdBound G]" using v by simp
  ultimately have "exists G ! v" using wf unfolding wf_graph_def by blast
  with ne show False ..
qed

lemma low_degrees_everywhere:
  assumes wf: "wf_graph G" and low: "\<forall>u\<in>set (nodes G). degree G u < 2"
  shows "\<forall>v<upperNodeIdBound G. degree G v < 2"
proof (intro allI impI)
  fix v assume v: "v < upperNodeIdBound G"
  show "degree G v < 2"
  proof (cases "exists G ! v")
    case True
    then have "v \<in> set (nodes G)" using v by (simp add: nodes_def)
    with low show ?thesis by blast
  next
    case False
    then show ?thesis using wf_missing_degree [OF wf v] by simp
  qed
qed

lemma estimate_simps:
  "estimate trials None = None"
  "estimate trials (Some (Inl f)) = Some (Inl f)"
  "estimate trials (Some (Inr t)) = Some (Inr (ddiv (real t) (real trials)))"
  by (simp_all add: estimate_def)

lemma approxGlobal_unfold:
  "approxGlobal G rnd trials =
     estimate trials
       (approxGlobal_loop G rnd (fst (prefixWeights G)) (snd (prefixWeights G)) trials 0 0 0)"
  by (simp add: approxGlobal_def case_prod_unfold Let_def)

lemma approxGlobal_no_value:
  assumes wf: "wf_graph G" and low: "\<forall>u\<in>set (nodes G). degree G u < 2" and tr: "0 < trials"
  shows "approxGlobal G rnd trials = None \<or>
         approxGlobal G rnd trials = Some (Inl (DegreeOutOfRange (upperNodeIdBound G)))"
proof (cases "approxGlobal_loop G rnd (fst (prefixWeights G)) (snd (prefixWeights G)) trials 0 0 0")
  case None
  then show ?thesis by (simp add: approxGlobal_unfold estimate_simps)
next
  case (Some y)
  have "y = Inl (DegreeOutOfRange (upperNodeIdBound G))"
    using approxGlobal_loop_no_value [OF Some low_degrees_everywhere [OF wf low]] tr by simp
  with Some show ?thesis by (simp add: approxGlobal_unfold estimate_simps)
qed

text \<open>
  Claim C3.  The array that \<open>approxGlobal\<close> builds is written only at the ids of existing
  nodes.  On the well-formed graph \<open>gapGraph\<close>, a triangle on the ids 0, 1, 2 followed by the
  removed ids 3, 4, 5, the entries at the removed ids stay \<open>0\<close>: the entry at index 3 is not
  the cumulative sum over the existing nodes with id at most 3, the array is not
  non-decreasing, and its final entry is not the total mass \<open>6\<close>.  The binary search for
  \<open>r = 5\<close> then ends at index 6, the upper node id bound, and \<open>approxGlobal\<close> asks for the
  degree of that id.
\<close>

theorem prefixWeights_gap:
  "nodes gapGraph = [0, 1, 2] \<and> upperNodeIdBound gapGraph = 6 \<and>
   prefixWeights gapGraph = (6, [2, 4, 6, 0, 0, 0]) \<and>
   \<not> sorted (snd (prefixWeights gapGraph)) \<and>
   last (snd (prefixWeights gapGraph)) \<noteq> fst (prefixWeights gapGraph) \<and>
   snd (prefixWeights gapGraph) ! 3 \<noteq> 6 \<and>
   binarySearch (snd (prefixWeights gapGraph)) 5 0 (upperNodeIdBound gapGraph) = 6 \<and>
   approxGlobal gapGraph (periodic [5]) 1 = Some (Inl (DegreeOutOfRange 6))"
proof -
  have a: "nodes gapGraph = [0, 1, 2]" by code_simp
  have b: "upperNodeIdBound gapGraph = 6" by code_simp
  have c: "prefixWeights gapGraph = (6, [2, 4, 6, 0, 0, 0])" by code_simp
  have d: "binarySearch [2, 4, 6, 0, 0, 0] 5 0 6 = 6" by code_simp
  have e: "approxGlobal gapGraph (periodic [5]) 1 = Some (Inl (DegreeOutOfRange 6))"
    by code_simp
  show ?thesis using a e by (simp add: b c d)
qed

text \<open>
  Claim C7, amended.  The redraw loop of \<open>approxAvgLocal\<close> and \<open>approxGlobal\<close> has no bound
  and no failure exit: it is not entered when \<open>w\<close> differs from \<open>u\<close>, it ends at the first
  redraw that returns a node other than \<open>u\<close>, after however many redraws \<open>n\<close> that takes,
  and it runs forever when every neighbour draw returns \<open>u\<close>.
\<close>

theorem redraw_unbounded:
  "(w \<noteq> u \<longrightarrow> redraw G rnd v u w pos = Some (w, pos)) \<and>
   ((\<forall>i<n. randomNeighbor G v (rnd (pos + i)) = u) \<and>
      randomNeighbor G v (rnd (pos + n)) \<noteq> u \<longrightarrow>
    redraw G rnd v u u pos = Some (randomNeighbor G v (rnd (pos + n)), pos + n + 1)) \<and>
   ((\<forall>i. randomNeighbor G v (rnd (pos + i)) = u) \<longrightarrow> redraw G rnd v u u pos = None)"
  using redraw_distinct [of w u G rnd v pos] redraw_after [of n G v rnd pos u]
    redraw_diverges [of G v rnd pos u]
  by blast

lemma randomNeighbor_constant:
  assumes "edgesOf G v \<noteq> []" and "\<forall>y\<in>set (edgesOf G v). y = c"
  shows "randomNeighbor G v x = c"
proof -
  have "x mod length (edgesOf G v) < length (edgesOf G v)" using assms(1) by simp
  then have "edgesOf G v ! (x mod length (edgesOf G v)) \<in> set (edgesOf G v)" by (rule nth_mem)
  then show ?thesis using assms(2) by (simp add: randomNeighbor_def degree_def)
qed

lemma doubled_neighbor: "randomNeighbor doubledEdgeGraph 0 x = 1"
  by (rule randomNeighbor_constant) (simp_all add: doubledEdgeGraph_def edgesOf_def)

theorem redraw_unbounded_witness:
  "randomNeighbor triangleGraph 0 (periodic [0, 0, 0, 1] 0) = 1 \<and>
   randomNeighbor triangleGraph 0 (periodic [0, 0, 0, 1] 1) = 1 \<and>
   randomNeighbor triangleGraph 0 (periodic [0, 0, 0, 1] 2) = 1 \<and>
   randomNeighbor triangleGraph 0 (periodic [0, 0, 0, 1] 3) = 2 \<and>
   redraw triangleGraph (periodic [0, 0, 0, 1]) 0 1 2 0 = Some (2, 0) \<and>
   redraw triangleGraph (periodic [0, 0, 0, 1]) 0 1 1 0 = Some (2, 4) \<and>
   (\<forall>i. randomNeighbor doubledEdgeGraph 0 (periodic [0] (3 + i)) = 1) \<and>
   redraw doubledEdgeGraph (periodic [0]) 0 1 1 3 = None"
proof -
  have d0: "randomNeighbor triangleGraph 0 (periodic [0, 0, 0, 1] 0) = 1" by code_simp
  have d1: "randomNeighbor triangleGraph 0 (periodic [0, 0, 0, 1] 1) = 1" by code_simp
  have d2: "randomNeighbor triangleGraph 0 (periodic [0, 0, 0, 1] 2) = 1" by code_simp
  have d3: "randomNeighbor triangleGraph 0 (periodic [0, 0, 0, 1] 3) = 2" by code_simp
  have h: "\<forall>i<3. randomNeighbor triangleGraph 0 (periodic [0, 0, 0, 1] (0 + i)) = 1"
  proof (intro allI impI)
    fix i :: nat assume "i < 3"
    then have "i = 0 \<or> i = 1 \<or> i = 2" by linarith
    then show "randomNeighbor triangleGraph 0 (periodic [0, 0, 0, 1] (0 + i)) = 1"
      using d0 d1 d2 by auto
  qed
  have a: "redraw triangleGraph (periodic [0, 0, 0, 1]) 0 1 2 0 = Some (2, 0)"
    using redraw_unbounded [of 2 1 triangleGraph "periodic [0, 0, 0, 1]" 0 0] by simp
  have b: "redraw triangleGraph (periodic [0, 0, 0, 1]) 0 1 1 0 = Some (2, 4)"
    using redraw_unbounded [of 1 1 triangleGraph "periodic [0, 0, 0, 1]" 0 0 3] h d3 by simp
  have c: "redraw doubledEdgeGraph (periodic [0]) 0 1 1 3 = None"
    using redraw_unbounded [of 1 1 doubledEdgeGraph "periodic [0]" 0 3] doubled_neighbor
    by simp
  show ?thesis using d0 d1 d2 d3 a b c doubled_neighbor by simp
qed

lemma periodic_zero: "periodic [0] pos = 0"
  by (simp add: periodic_def)

text \<open>
  Claim C7 as stated fails: node 0 of \<open>doubledEdgeGraph\<close> has degree two and every neighbour
  draw returns node 1; the redraw loop, and with it \<open>approxAvgLocal\<close> and \<open>approxGlobal\<close>,
  never returns and never fails.
\<close>

theorem redraw_unbounded_counterexample:
  "2 \<le> degree doubledEdgeGraph 0 \<and>
   (\<forall>x. randomNeighbor doubledEdgeGraph 0 x = 1) \<and>
   redraw doubledEdgeGraph (periodic [0]) 0 1 1 3 = None \<and>
   approxAvgLocal doubledEdgeGraph (periodic [0]) 1 = None \<and>
   approxGlobal doubledEdgeGraph (periodic [0]) 1 = None"
proof -
  have d: "degree doubledEdgeGraph 0 = 2" by code_simp
  have r: "redraw doubledEdgeGraph (periodic [0]) 0 1 1 3 = None"
    by (rule redraw_diverges) (simp add: doubled_neighbor)
  have r': "redraw doubledEdgeGraph (periodic [0]) 0 (Suc 0) (Suc 0) 3 = None"
    using r by simp
  have n: "randomNode doubledEdgeGraph 0 = Some 0" by code_simp
  have "approxAvgLocal_loop doubledEdgeGraph (periodic [0]) 1 0 0 0 = None"
    by (subst approxAvgLocal_loop.simps) (simp add: periodic_zero n d doubled_neighbor r')
  then have a: "approxAvgLocal doubledEdgeGraph (periodic [0]) 1 = None"
    by (simp add: approxAvgLocal_def estimate_simps)
  have p: "prefixWeights doubledEdgeGraph = (4, [2, 4])" by code_simp
  have z: "upperNodeIdBound doubledEdgeGraph = 2" by code_simp
  have i: "random_integer (count_pred 4) 0 = 0" by (simp add: random_integer_def)
  have b: "binarySearch [2, 4] 0 0 2 = 0" by code_simp
  have "approxGlobal_loop doubledEdgeGraph (periodic [0]) 4 [2, 4] 1 0 0 0 = None"
    by (subst approxGlobal_loop.simps) (simp add: periodic_zero z i b d doubled_neighbor r')
  then have g: "approxGlobal doubledEdgeGraph (periodic [0]) 1 = None"
    by (simp add: approxGlobal_unfold p estimate_simps)
  show ?thesis using d r a g doubled_neighbor by simp
qed

text \<open>
  Claim C5, amended.  In a graph where no node has degree two or more the total mass
  \<open>psum\<close> is zero, \<open>psum - 1\<close> wraps around to \<open>2^64 - 1\<close> and the draw is taken from the full
  64-bit range.  For every positive trial count \<open>approxGlobal\<close> then returns no value and
  raises no error of its own: every iteration either discards the drawn node without
  counting a trial, so that the loop runs forever, or the binary search ends at the upper
  node id bound and the degree of an id outside the id range is read.
\<close>

theorem approxGlobal_without_triples:
  assumes "wf_graph G" and "\<forall>u\<in>set (nodes G). degree G u < 2" and "0 < trials"
  shows "fst (prefixWeights G) = 0 \<and>
         count_pred (fst (prefixWeights G)) = 2 ^ 64 - 1 \<and>
         (approxGlobal G rnd trials = None \<or>
          approxGlobal G rnd trials = Some (Inl (DegreeOutOfRange (upperNodeIdBound G))))"
proof -
  have p: "fst (prefixWeights G) = 0" using assms(2) by (rule psum_zero)
  then have "count_pred (fst (prefixWeights G)) = 2 ^ 64 - 1" by (simp add: count_pred_def)
  with p approxGlobal_no_value [OF assms] show ?thesis by blast
qed

theorem approxGlobal_without_triples_witness:
  "wf_graph singleEdgeGraph \<and> nodes singleEdgeGraph = [0, 1] \<and>
   degree singleEdgeGraph 0 < 2 \<and> degree singleEdgeGraph 1 < 2 \<and> (0 :: nat) < 1 \<and>
   fst (prefixWeights singleEdgeGraph) = 0 \<and>
   upperNodeIdBound singleEdgeGraph = 2 \<and>
   approxGlobal singleEdgeGraph (periodic [5]) 1 = Some (Inl (DegreeOutOfRange 2))"
proof -
  have w: "wf_graph singleEdgeGraph" by code_simp
  have n: "nodes singleEdgeGraph = [0, 1]" by code_simp
  have d0: "degree singleEdgeGraph 0 < 2" by code_simp
  have d1: "degree singleEdgeGraph 1 < 2" by code_simp
  have low: "\<forall>u\<in>set (nodes singleEdgeGraph). degree singleEdgeGraph u < 2"
    using d0 d1 by (simp add: n)
  have t: "(0 :: nat) < 1" by simp
  have z: "upperNodeIdBound singleEdgeGraph = 2" by code_simp
  have i: "random_integer (count_pred 0) 5 = 5"
    by (simp add: random_integer_def count_pred_def)
  have q: "prefixWeights singleEdgeGraph = (0, [0, 0])" by code_simp
  have b: "binarySearch [0, 0] 5 0 2 = 2" by code_simp
  have "approxGlobal_loop singleEdgeGraph (periodic [5]) 0 [0, 0] 1 0 0 0
        = Some (Inl (DegreeOutOfRange 2))"
    by (subst approxGlobal_loop.simps) (simp add: periodic_def i z b)
  then have v: "approxGlobal singleEdgeGraph (periodic [5]) 1 = Some (Inl (DegreeOutOfRange 2))"
    by (simp add: approxGlobal_unfold q estimate_simps)
  have p: "fst (prefixWeights singleEdgeGraph) = 0"
    using approxGlobal_without_triples [OF w low t, of "periodic [5]"] by simp
  show ?thesis using w n d0 d1 z v p by simp
qed

text \<open>
  Claim C5 as stated fails: on a single edge, with a random source whose raw draws are all
  \<open>0\<close>, \<open>approxGlobal\<close> never returns and signals nothing.
\<close>

theorem approxGlobal_without_triples_counterexample:
  "wf_graph singleEdgeGraph \<and> nodes singleEdgeGraph = [0, 1] \<and>
   degree singleEdgeGraph 0 < 2 \<and> degree singleEdgeGraph 1 < 2 \<and>
   approxGlobal singleEdgeGraph (periodic [0]) 1 = None"
proof -
  have w: "wf_graph singleEdgeGraph" by code_simp
  have n: "nodes singleEdgeGraph = [0, 1]" by code_simp
  have d0: "degree singleEdgeGraph 0 < 2" by code_simp
  have d1: "degree singleEdgeGraph 1 < 2" by code_simp
  have low: "\<forall>u\<in>set (nodes singleEdgeGraph). degree singleEdgeGraph u < 2"
    using d0 d1 by (simp add: n)
  have z: "upperNodeIdBound singleEdgeGraph = 2" by code_simp
  have p: "prefixWeights singleEdgeGraph = (0, [0, 0])" by code_simp
  have b: "binarySearch [0, 0] 0 0 2 = 1" by code_simp
  have inside: "\<forall>pos. binarySearch (snd (prefixWeights singleEdgeGraph))
           (random_integer (count_pred (fst (prefixWeights singleEdgeGraph))) (periodic [0] pos)) 0
           (upperNodeIdBound singleEdgeGraph) < upperNodeIdBound singleEdgeGraph"
    by (simp add: p z periodic_zero random_integer_def b)
  have "approxGlobal_loop singleEdgeGraph (periodic [0]) (fst (prefixWeights singleEdgeGraph))
          (snd (prefixWeights singleEdgeGraph)) 1 0 0 0 = None"
  proof (rule ccontr)
    assume "approxGlobal_loop singleEdgeGraph (periodic [0]) (fst (prefixWeights singleEdgeGraph))
          (snd (prefixWeights singleEdgeGraph)) 1 0 0 0 \<noteq> None"
    then obtain y where y: "approxGlobal_loop singleEdgeGraph (periodic [0])
          (fst (prefixWeights singleEdgeGraph)) (snd (prefixWeights singleEdgeGraph)) 1 0 0 0 = Some y"
      by blast
    have "y = Inl (DegreeOutOfRange (upperNodeIdBound singleEdgeGraph))"
      using approxGlobal_loop_no_value [OF y low_degrees_everywhere [OF w low]] by simp
    moreover have "\<forall>v. y \<noteq> Inl (DegreeOutOfRange v)"
      using y inside by (rule approxGlobal_loop_in_range)
    ultimately show False by blast
  qed
  then have "approxGlobal singleEdgeGraph (periodic [0]) 1 = None"
    by (simp add: approxGlobal_unfold estimate_simps)
  then show ?thesis using w n d0 d1 by simp
qed

lemma estimate_value:
  assumes "estimate trials run = Some (Inr x)"
  shows "\<exists>t. run = Some (Inr t) \<and> x = ddiv (real t) (real trials)"
proof (cases run)
  case None
  with assms show ?thesis by (simp add: estimate_simps)
next
  case (Some y)
  show ?thesis
  proof (cases y)
    case (Inl f)
    with Some assms show ?thesis by (simp add: estimate_simps)
  next
    case (Inr t)
    with Some assms show ?thesis by (simp add: estimate_simps)
  qed
qed

section \<open>Counted trials of the approximate estimators\<close>

lemma counted_trials_hits: "counted_trials G rnd draw pos n hits pos' \<Longrightarrow> hits \<le> n"
  by (induction rule: counted_trials.induct) auto

lemma avgLocal_trial_step:
  assumes "counted_trial G rnd (avgLocal_draw G rnd) pos hit pos'" and "k < trials"
  shows "approxAvgLocal_loop G rnd trials k pos t =
         approxAvgLocal_loop G rnd trials (k + 1) pos' (if hit then t + 1 else t)"
  using assms
proof (induction rule: counted_trial.induct)
  case (discarded pos v hit pos')
  have "approxAvgLocal_loop G rnd trials k pos t = approxAvgLocal_loop G rnd trials k (pos + 1) t"
    using discarded.hyps(1,2) discarded.prems
    by (subst approxAvgLocal_loop.simps) (simp add: avgLocal_draw_def)
  then show ?case using discarded.IH discarded.prems by simp
next
  case (kept pos v w pos')
  show ?case
    using kept
    by (subst approxAvgLocal_loop.simps) (simp add: avgLocal_draw_def Let_def)
qed

lemma avgLocal_trials_run:
  assumes "counted_trials G rnd (avgLocal_draw G rnd) pos n hits pos'" and "k + n = trials"
  shows "approxAvgLocal_loop G rnd trials k pos t = Some (Inr (t + hits))"
  using assms
proof (induction arbitrary: k t rule: counted_trials.induct)
  case (no_trial pos)
  then show ?case by (subst approxAvgLocal_loop.simps) simp
next
  case (next_trial pos hit mid n hits pos')
  have k: "k < trials" using next_trial.prems by simp
  have "approxAvgLocal_loop G rnd trials k pos t =
        approxAvgLocal_loop G rnd trials (k + 1) mid (if hit then t + 1 else t)"
    using next_trial.hyps(1) k by (rule avgLocal_trial_step)
  also have "\<dots> = Some (Inr ((if hit then t + 1 else t) + hits))"
    using next_trial.prems by (intro next_trial.IH) simp
  finally show ?case by simp
qed

lemma avgLocal_run_trials:
  assumes "approxAvgLocal_loop G rnd trials k pos t = Some y"
  shows "k \<le> trials \<longrightarrow> (\<forall>t'. y = Inr t' \<longrightarrow>
           (\<exists>hits pos'. counted_trials G rnd (avgLocal_draw G rnd) pos (trials - k) hits pos' \<and>
                         t' = t + hits))"
proof (rule approxAvgLocal_loop.raw_induct
    [where P = "\<lambda>G rnd trials k pos t y.
        k \<le> trials \<longrightarrow> (\<forall>t'. y = Inr t' \<longrightarrow>
           (\<exists>hits pos'. counted_trials G rnd (avgLocal_draw G rnd) pos (trials - k) hits pos' \<and>
                         t' = t + hits))",
      OF _ assms])
  fix loop :: "graph \<Rightarrow> (nat \<Rightarrow> nat) \<Rightarrow> nat \<Rightarrow> nat \<Rightarrow> nat \<Rightarrow> nat \<Rightarrow> (fault + nat) option"
  fix G rnd trials k pos t y
  assume IH: "\<And>G rnd trials k pos t y. loop G rnd trials k pos t = Some y \<Longrightarrow>
        k \<le> trials \<longrightarrow> (\<forall>t'. y = Inr t' \<longrightarrow>
           (\<exists>hits pos'. counted_trials G rnd (avgLocal_draw G rnd) pos (trials - k) hits pos' \<and>
                         t' = t + hits))"
    and step: "(if k < trials then
        (case randomNode G (rnd pos) of
           None \<Rightarrow> Some (Inl NoNodeToDraw)
         | Some v \<Rightarrow>
             if degree G v < 2 then loop G rnd trials k (pos + 1) t
             else
               (let u = randomNeighbor G v (rnd (pos + 1));
                    w = randomNeighbor G v (rnd (pos + 2))
                in case redraw G rnd v u w (pos + 3) of
                     None \<Rightarrow> None
                   | Some (w', pos') \<Rightarrow>
                       loop G rnd trials (k + 1) pos'
                         (if hasEdge G u w' then t + 1 else t)))
      else Some (Inr t)) = Some y"
  show "k \<le> trials \<longrightarrow> (\<forall>t'. y = Inr t' \<longrightarrow>
           (\<exists>hits pos'. counted_trials G rnd (avgLocal_draw G rnd) pos (trials - k) hits pos' \<and>
                         t' = t + hits))"
  proof (intro impI allI)
    fix t' assume kle: "k \<le> trials" and y: "y = Inr t'"
    show "\<exists>hits pos'. counted_trials G rnd (avgLocal_draw G rnd) pos (trials - k) hits pos' \<and>
                         t' = t + hits"
    proof (cases "k < trials")
      case False
      with kle have "trials - k = 0" by simp
      moreover from step False y have "t' = t" by simp
      ultimately show ?thesis using counted_trials.no_trial [of G rnd "avgLocal_draw G rnd" pos]
        by auto
    next
      case True
      then obtain m where m: "trials - k = Suc m" and m': "trials - (k + 1) = m"
        by (cases "trials - k") auto
      show ?thesis
      proof (cases "randomNode G (rnd pos)")
        case None
        with step True y show ?thesis by simp
      next
        case (Some v)
        then have draw: "avgLocal_draw G rnd pos = Some v" by (simp add: avgLocal_draw_def)
        show ?thesis
        proof (cases "degree G v < 2")
          case d: True
          with step True Some have "loop G rnd trials k (pos + 1) t = Some y" by simp
          from IH [OF this] kle y obtain hits pos' where
            c: "counted_trials G rnd (avgLocal_draw G rnd) (pos + 1) (Suc m) hits pos'"
            and t': "t' = t + hits"
            unfolding m by blast
          from c obtain hit mid hits0 where
            tr: "counted_trial G rnd (avgLocal_draw G rnd) (pos + 1) hit mid"
            and rest: "counted_trials G rnd (avgLocal_draw G rnd) mid m hits0 pos'"
            and h: "hits = (if hit then hits0 + 1 else hits0)"
            by (cases rule: counted_trials.cases) auto
          have "counted_trial G rnd (avgLocal_draw G rnd) pos hit mid"
            using draw d tr by (rule counted_trial.discarded)
          then have "counted_trials G rnd (avgLocal_draw G rnd) pos (Suc m)
                       (if hit then hits0 + 1 else hits0) pos'"
            using rest by (rule counted_trials.next_trial)
          then show ?thesis unfolding m using t' h by blast
        next
          case d: False
          define u where "u = randomNeighbor G v (rnd (pos + 1))"
          define w where "w = randomNeighbor G v (rnd (pos + 2))"
          from step True Some d obtain w' pos1 where
            r: "redraw G rnd v u w (pos + 3) = Some (w', pos1)" and
            l: "loop G rnd trials (k + 1) pos1 (if hasEdge G u w' then t + 1 else t) = Some y"
            by (auto simp: Let_def u_def w_def split: option.splits)
          from IH [OF l] True y obtain hits0 pos' where
            rest: "counted_trials G rnd (avgLocal_draw G rnd) pos1 m hits0 pos'"
            and t': "t' = (if hasEdge G u w' then t + 1 else t) + hits0"
            unfolding m' by auto
          have "2 \<le> degree G v" using d by simp
          with draw have "counted_trial G rnd (avgLocal_draw G rnd) pos (hasEdge G u w') pos1"
            using r unfolding u_def w_def by (rule counted_trial.kept)
          then have "counted_trials G rnd (avgLocal_draw G rnd) pos (Suc m)
                       (if hasEdge G u w' then hits0 + 1 else hits0) pos'"
            using rest by (rule counted_trials.next_trial)
          moreover have "t' = t + (if hasEdge G u w' then hits0 + 1 else hits0)"
            using t' by simp
          ultimately show ?thesis unfolding m by blast
        qed
      qed
    qed
  qed
qed

lemma weighted_draw_Some:
  "weighted_draw G rnd psum weight pos = Some v \<longleftrightarrow>
     v = binarySearch weight (random_integer (count_pred psum) (rnd pos)) 0 (upperNodeIdBound G) \<and>
     v < upperNodeIdBound G"
  by (auto simp: weighted_draw_def weighted_node_def Let_def)

lemma global_trial_step:
  assumes "counted_trial G rnd (weighted_draw G rnd psum weight) pos hit pos'" and "k < trials"
  shows "approxGlobal_loop G rnd psum weight trials k pos t =
         approxGlobal_loop G rnd psum weight trials (k + 1) pos' (if hit then t + 1 else t)"
  using assms
proof (induction rule: counted_trial.induct)
  case (discarded pos v hit pos')
  from discarded.hyps(1) have v: "v = binarySearch weight
      (random_integer (count_pred psum) (rnd pos)) 0 (upperNodeIdBound G)"
    and vz: "v < upperNodeIdBound G"
    by (simp_all add: weighted_draw_Some)
  have "approxGlobal_loop G rnd psum weight trials k pos t =
        approxGlobal_loop G rnd psum weight trials k (pos + 1) t"
    using discarded.hyps(2) discarded.prems vz
    by (subst approxGlobal_loop.simps) (simp add: Let_def v [symmetric])
  then show ?case using discarded.IH discarded.prems by simp
next
  case (kept pos v w pos')
  from kept(1) have v: "v = binarySearch weight
      (random_integer (count_pred psum) (rnd pos)) 0 (upperNodeIdBound G)"
    and vz: "v < upperNodeIdBound G"
    by (simp_all add: weighted_draw_Some)
  show ?case
    using kept(2,3,4) vz
    by (subst approxGlobal_loop.simps) (simp add: Let_def v [symmetric])
qed

lemma global_trials_run:
  assumes "counted_trials G rnd (weighted_draw G rnd psum weight) pos n hits pos'"
    and "k + n = trials"
  shows "approxGlobal_loop G rnd psum weight trials k pos t = Some (Inr (t + hits))"
  using assms
proof (induction arbitrary: k t rule: counted_trials.induct)
  case (no_trial pos)
  then show ?case by (subst approxGlobal_loop.simps) simp
next
  case (next_trial pos hit mid n hits pos')
  have k: "k < trials" using next_trial.prems by simp
  have "approxGlobal_loop G rnd psum weight trials k pos t =
        approxGlobal_loop G rnd psum weight trials (k + 1) mid (if hit then t + 1 else t)"
    using next_trial.hyps(1) k by (rule global_trial_step)
  also have "\<dots> = Some (Inr ((if hit then t + 1 else t) + hits))"
    using next_trial.prems by (intro next_trial.IH) simp
  finally show ?case by simp
qed

lemma approxGlobal_loop_kept:
  assumes step: "(if k < trials then
        (let r = random_integer (count_pred psum) (rnd pos);
             v = binarySearch weight r 0 (upperNodeIdBound G)
         in if upperNodeIdBound G \<le> v then Some (Inl (DegreeOutOfRange v))
            else if degree G v < 2 then
              loop G rnd psum weight trials k (pos + 1) t
            else
              (let u = randomNeighbor G v (rnd (pos + 1));
                   w = randomNeighbor G v (rnd (pos + 2))
               in case redraw G rnd v u w (pos + 3) of
                    None \<Rightarrow> None
                  | Some (w', pos') \<Rightarrow>
                      loop G rnd psum weight trials (k + 1) pos'
                        (if hasEdge G u w' then t + 1 else t)))
      else Some (Inr t)) = Some (y :: fault + nat)"
  and v: "v = binarySearch weight (random_integer (count_pred psum) (rnd pos)) 0 (upperNodeIdBound G)"
  and k: "k < trials" and vz: "v < upperNodeIdBound G" and d: "2 \<le> degree G v"
  obtains w' pos' where
      "redraw G rnd v (randomNeighbor G v (rnd (pos + 1))) (randomNeighbor G v (rnd (pos + 2)))
        (pos + 3) = Some (w', pos')"
      "loop G rnd psum weight trials (k + 1) pos'
        (if hasEdge G (randomNeighbor G v (rnd (pos + 1))) w' then t + 1 else t) = Some y"
proof -
  have nd: "\<not> degree G v < 2" and nz: "\<not> upperNodeIdBound G \<le> v" using d vz by simp_all
  define u where "u = randomNeighbor G v (rnd (pos + 1))"
  define w where "w = randomNeighbor G v (rnd (pos + 2))"
  from step k nz nd obtain w' pos' where
    "redraw G rnd v u w (pos + 3) = Some (w', pos')"
    "loop G rnd psum weight trials (k + 1) pos' (if hasEdge G u w' then t + 1 else t) = Some y"
    by (auto simp: Let_def v [symmetric] u_def w_def split: option.splits)
  then show ?thesis unfolding u_def w_def by (rule that)
qed

lemma global_run_trials:
  assumes "approxGlobal_loop G rnd psum weight trials k pos t = Some y"
  shows "k \<le> trials \<longrightarrow> (\<forall>t'. y = Inr t' \<longrightarrow>
           (\<exists>hits pos'. counted_trials G rnd (weighted_draw G rnd psum weight) pos (trials - k)
                           hits pos' \<and> t' = t + hits))"
proof (rule approxGlobal_loop.raw_induct
    [where P = "\<lambda>G rnd psum weight trials k pos t y.
        k \<le> trials \<longrightarrow> (\<forall>t'. y = Inr t' \<longrightarrow>
           (\<exists>hits pos'. counted_trials G rnd (weighted_draw G rnd psum weight) pos (trials - k)
                           hits pos' \<and> t' = t + hits))",
      OF _ assms])
  fix loop :: "graph \<Rightarrow> (nat \<Rightarrow> nat) \<Rightarrow> nat \<Rightarrow> nat list \<Rightarrow> nat \<Rightarrow> nat \<Rightarrow> nat \<Rightarrow> nat \<Rightarrow> (fault + nat) option"
  fix G rnd psum weight trials k pos t y
  assume IH: "\<And>G rnd psum weight trials k pos t y.
        loop G rnd psum weight trials k pos t = Some y \<Longrightarrow>
        k \<le> trials \<longrightarrow> (\<forall>t'. y = Inr t' \<longrightarrow>
           (\<exists>hits pos'. counted_trials G rnd (weighted_draw G rnd psum weight) pos (trials - k)
                           hits pos' \<and> t' = t + hits))"
  assume step: "(if k < trials then
        (let r = random_integer (count_pred psum) (rnd pos);
             v = binarySearch weight r 0 (upperNodeIdBound G)
         in if upperNodeIdBound G \<le> v then Some (Inl (DegreeOutOfRange v))
            else if degree G v < 2 then
              loop G rnd psum weight trials k (pos + 1) t
            else
              (let u = randomNeighbor G v (rnd (pos + 1));
                   w = randomNeighbor G v (rnd (pos + 2))
               in case redraw G rnd v u w (pos + 3) of
                    None \<Rightarrow> None
                  | Some (w', pos') \<Rightarrow>
                      loop G rnd psum weight trials (k + 1) pos'
                        (if hasEdge G u w' then t + 1 else t)))
      else Some (Inr t)) = Some y"
  define v where
    "v = binarySearch weight (random_integer (count_pred psum) (rnd pos)) 0 (upperNodeIdBound G)"
  show "k \<le> trials \<longrightarrow> (\<forall>t'. y = Inr t' \<longrightarrow>
           (\<exists>hits pos'. counted_trials G rnd (weighted_draw G rnd psum weight) pos (trials - k)
                           hits pos' \<and> t' = t + hits))"
  proof (intro impI allI)
    fix t' assume kle: "k \<le> trials" and y: "y = Inr t'"
    show "\<exists>hits pos'. counted_trials G rnd (weighted_draw G rnd psum weight) pos (trials - k)
                           hits pos' \<and> t' = t + hits"
    proof (cases "k < trials")
      case False
      with kle have "trials - k = 0" by simp
      moreover from step False y have "t' = t" by simp
      ultimately show ?thesis
        using counted_trials.no_trial [of G rnd "weighted_draw G rnd psum weight" pos] by auto
    next
      case True
      then obtain m where m: "trials - k = Suc m" and m': "trials - (k + 1) = m"
        by (cases "trials - k") auto
      show ?thesis
      proof (cases "upperNodeIdBound G \<le> v")
        case out: True
        with step True have "y = Inl (DegreeOutOfRange v)" by (simp add: Let_def v_def)
        with y show ?thesis by simp
      next
        case False
        then have vz: "v < upperNodeIdBound G" by simp
        then have draw: "weighted_draw G rnd psum weight pos = Some v"
          by (simp add: weighted_draw_Some v_def)
        show ?thesis
        proof (cases "degree G v < 2")
          case d: True
          with step True False have "loop G rnd psum weight trials k (pos + 1) t = Some y"
            by (simp add: Let_def v_def)
          from IH [OF this] kle y obtain hits pos' where
            c: "counted_trials G rnd (weighted_draw G rnd psum weight) (pos + 1) (Suc m) hits pos'"
            and t': "t' = t + hits"
            unfolding m by blast
          from c obtain hit mid hits0 where
            tr: "counted_trial G rnd (weighted_draw G rnd psum weight) (pos + 1) hit mid"
            and rest: "counted_trials G rnd (weighted_draw G rnd psum weight) mid m hits0 pos'"
            and h: "hits = (if hit then hits0 + 1 else hits0)"
            by (cases rule: counted_trials.cases) auto
          have "counted_trial G rnd (weighted_draw G rnd psum weight) pos hit mid"
            using draw d tr by (rule counted_trial.discarded)
          then have "counted_trials G rnd (weighted_draw G rnd psum weight) pos (Suc m)
                       (if hit then hits0 + 1 else hits0) pos'"
            using rest by (rule counted_trials.next_trial)
          then show ?thesis unfolding m using t' h by blast
        next
          case False
          then have d: "2 \<le> degree G v" by simp
          from step v_def True vz d obtain w' pos1 where
            r: "redraw G rnd v (randomNeighbor G v (rnd (pos + 1)))
                  (randomNeighbor G v (rnd (pos + 2))) (pos + 3) = Some (w', pos1)" and
            l: "loop G rnd psum weight trials (k + 1) pos1
                  (if hasEdge G (randomNeighbor G v (rnd (pos + 1))) w' then t + 1 else t) = Some y"
            by (rule approxGlobal_loop_kept)
          from IH [OF l] True y obtain hits0 pos' where
            rest: "counted_trials G rnd (weighted_draw G rnd psum weight) pos1 m hits0 pos'"
            and t': "t' = (if hasEdge G (randomNeighbor G v (rnd (pos + 1))) w' then t + 1 else t)
                          + hits0"
            unfolding m' by auto
          have "counted_trial G rnd (weighted_draw G rnd psum weight) pos
                  (hasEdge G (randomNeighbor G v (rnd (pos + 1))) w') pos1"
            using draw d r by (rule counted_trial.kept)
          then have "counted_trials G rnd (weighted_draw G rnd psum weight) pos (Suc m)
                       (if hasEdge G (randomNeighbor G v (rnd (pos + 1))) w'
                        then hits0 + 1 else hits0) pos'"
            using rest by (rule counted_trials.next_trial)
          moreover have "t' = t + (if hasEdge G (randomNeighbor G v (rnd (pos + 1))) w'
                                   then hits0 + 1 else hits0)"
            using t' by simp
          ultimately show ?thesis unfolding m by blast
        qed
      qed
    qed
  qed
qed

lemma redraw_returns:
  assumes "\<exists>n. randomNeighbor G v (rnd (pos + n)) \<noteq> u"
  shows "\<exists>w pos'. redraw G rnd v u w0 pos = Some (w, pos')"
proof (cases "w0 = u")
  case False
  then show ?thesis using redraw_distinct [of w0 u G rnd v pos] by blast
next
  case True
  from assms obtain n where n: "randomNeighbor G v (rnd (pos + n)) \<noteq> u"
    and least: "\<forall>i<n. \<not> randomNeighbor G v (rnd (pos + i)) \<noteq> u"
    using exists_least_iff [of "\<lambda>n. randomNeighbor G v (rnd (pos + n)) \<noteq> u"] by blast
  from least have "\<forall>i<n. randomNeighbor G v (rnd (pos + i)) = u" by simp
  then have "redraw G rnd v u u pos = Some (randomNeighbor G v (rnd (pos + n)), pos + n + 1)"
    using n by (rule redraw_after)
  with True show ?thesis by blast
qed

lemma counted_trial_exists:
  assumes some: "\<forall>pos. \<exists>v. draw pos = Some v \<and> v < upperNodeIdBound G"
    and keep: "\<forall>pos. \<exists>n v. draw (pos + n) = Some v \<and> 2 \<le> degree G v"
    and other: "\<forall>pos v u. v < upperNodeIdBound G \<and> 2 \<le> degree G v \<longrightarrow>
                  (\<exists>n. randomNeighbor G v (rnd (pos + n)) \<noteq> u)"
  shows "\<exists>hit pos'. counted_trial G rnd draw pos hit pos'"
proof -
  have kept_here: "\<exists>hit pos'. counted_trial G rnd draw pos hit pos'"
    if d: "draw pos = Some v" and deg: "2 \<le> degree G v" for pos v
  proof -
    from some d have vz: "v < upperNodeIdBound G" by (metis option.inject)
    with other deg have "\<exists>n. randomNeighbor G v (rnd (pos + 3 + n))
                               \<noteq> randomNeighbor G v (rnd (pos + 1))"
      by blast
    then obtain w pos' where
      "redraw G rnd v (randomNeighbor G v (rnd (pos + 1)))
         (randomNeighbor G v (rnd (pos + 2))) (pos + 3) = Some (w, pos')"
      using redraw_returns by blast
    with d deg have "counted_trial G rnd draw pos
                       (hasEdge G (randomNeighbor G v (rnd (pos + 1))) w) pos'"
      by (rule counted_trial.kept)
    then show ?thesis by blast
  qed
  have "\<exists>hit pos'. counted_trial G rnd draw pos hit pos'"
    if "draw (pos + n) = Some v" and "2 \<le> degree G v" for n v
    using that
  proof (induction n arbitrary: pos)
    case 0
    then show ?case using kept_here [of pos v] by simp
  next
    case (Suc n)
    from some obtain v0 where v0: "draw pos = Some v0" by blast
    show ?case
    proof (cases "degree G v0 < 2")
      case False
      then show ?thesis using kept_here [OF v0] by simp
    next
      case True
      have "draw (pos + 1 + n) = Some v" using Suc.prems(1) by simp
      then obtain hit pos' where "counted_trial G rnd draw (pos + 1) hit pos'"
        using Suc.IH [of "pos + 1"] Suc.prems(2) by blast
      with v0 True have "counted_trial G rnd draw pos hit pos'"
        by (rule counted_trial.discarded)
      then show ?thesis by blast
    qed
  qed
  with keep show ?thesis by blast
qed

lemma counted_trials_exist:
  assumes some: "\<forall>pos. \<exists>v. draw pos = Some v \<and> v < upperNodeIdBound G"
    and keep: "\<forall>pos. \<exists>n v. draw (pos + n) = Some v \<and> 2 \<le> degree G v"
    and other: "\<forall>pos v u. v < upperNodeIdBound G \<and> 2 \<le> degree G v \<longrightarrow>
                  (\<exists>n. randomNeighbor G v (rnd (pos + n)) \<noteq> u)"
  shows "\<exists>hits pos'. counted_trials G rnd draw pos n hits pos'"
proof (induction n arbitrary: pos)
  case 0
  show ?case using counted_trials.no_trial [of G rnd draw pos] by blast
next
  case (Suc n)
  from counted_trial_exists [OF some keep other] obtain hit mid where
    "counted_trial G rnd draw pos hit mid" by blast
  moreover from Suc.IH obtain hits pos' where "counted_trials G rnd draw mid n hits pos'"
    by blast
  ultimately have "counted_trials G rnd draw pos (Suc n) (if hit then hits + 1 else hits) pos'"
    by (rule counted_trials.next_trial)
  then show ?case by blast
qed

lemma other_neighbour:
  assumes nb: "neighbours_recur G rnd" and two: "two_neighbours G"
  shows "\<forall>pos v u. v < upperNodeIdBound G \<and> 2 \<le> degree G v \<longrightarrow>
           (\<exists>n. randomNeighbor G v (rnd (pos + n)) \<noteq> u)"
proof (intro allI impI)
  fix pos v u assume a: "v < upperNodeIdBound G \<and> 2 \<le> degree G v"
  then have v: "v \<in> set [0..<upperNodeIdBound G]" by simp
  with two a have c: "2 \<le> card (set (edgesOf G v))" unfolding two_neighbours_def by blast
  have "\<exists>w\<in>set (edgesOf G v). w \<noteq> u"
  proof (rule ccontr)
    assume "\<not> (\<exists>w\<in>set (edgesOf G v). w \<noteq> u)"
    then have "set (edgesOf G v) \<subseteq> {u}" by blast
    then have "card (set (edgesOf G v)) \<le> card {u}" by (intro card_mono) simp_all
    with c show False by simp
  qed
  then obtain w where w: "w \<in> set (edgesOf G v)" and wu: "w \<noteq> u" by blast
  from nb v w obtain n where "randomNeighbor G v (rnd (pos + n)) = w"
    unfolding neighbours_recur_def by blast
  with wu show "\<exists>n. randomNeighbor G v (rnd (pos + n)) \<noteq> u" by blast
qed

lemma randomNode_Some:
  "nodes G \<noteq> [] \<Longrightarrow> \<exists>v. randomNode G x = Some v \<and> v \<in> set (nodes G)"
  by (simp add: randomNode_def)

lemma avgLocal_trials_exist:
  assumes heavy: "\<exists>u\<in>set (nodes G). 2 \<le> degree G u"
    and nr: "nodes_recur G rnd" and nb: "neighbours_recur G rnd" and two: "two_neighbours G"
  shows "\<exists>hits pos'. counted_trials G rnd (avgLocal_draw G rnd) pos n hits pos'"
proof (rule counted_trials_exist)
  from heavy have ne: "nodes G \<noteq> []" by auto
  show "\<forall>pos. \<exists>v. avgLocal_draw G rnd pos = Some v \<and> v < upperNodeIdBound G"
  proof
    fix pos
    from randomNode_Some [OF ne, of "rnd pos"] obtain v where
      "randomNode G (rnd pos) = Some v" "v \<in> set (nodes G)" by blast
    then show "\<exists>v. avgLocal_draw G rnd pos = Some v \<and> v < upperNodeIdBound G"
      by (auto simp: avgLocal_draw_def nodes_def)
  qed
  show "\<forall>pos. \<exists>n v. avgLocal_draw G rnd (pos + n) = Some v \<and> 2 \<le> degree G v"
    using heavy nr unfolding nodes_recur_def by blast
  show "\<forall>pos v u. v < upperNodeIdBound G \<and> 2 \<le> degree G v \<longrightarrow>
          (\<exists>n. randomNeighbor G v (rnd (pos + n)) \<noteq> u)"
    using nb two by (rule other_neighbour)
qed

lemma global_trials_exist:
  assumes heavy: "\<exists>u\<in>set (nodes G). 2 \<le> degree G u"
    and sr: "samples_recur G rnd" and nb: "neighbours_recur G rnd" and two: "two_neighbours G"
  shows "\<exists>hits pos'. counted_trials G rnd (global_draw G rnd) pos n hits pos'"
proof (rule counted_trials_exist)
  show "\<forall>pos. \<exists>v. global_draw G rnd pos = Some v \<and> v < upperNodeIdBound G"
  proof
    fix pos
    from sr obtain v where v: "global_draw G rnd pos = Some v"
      unfolding samples_recur_def by blast
    then have "v < upperNodeIdBound G" by (simp add: global_draw_def weighted_draw_Some)
    with v show "\<exists>v. global_draw G rnd pos = Some v \<and> v < upperNodeIdBound G" by blast
  qed
  show "\<forall>pos. \<exists>n v. global_draw G rnd (pos + n) = Some v \<and> 2 \<le> degree G v"
    using heavy sr unfolding samples_recur_def by blast
  show "\<forall>pos v u. v < upperNodeIdBound G \<and> 2 \<le> degree G v \<longrightarrow>
          (\<exists>n. randomNeighbor G v (rnd (pos + n)) \<noteq> u)"
    using nb two by (rule other_neighbour)
qed

lemma discarded_draw:
  assumes "draw pos = Some v" and "degree G v < 2"
  shows "counted_trials G rnd draw pos (Suc n) hits pos' \<longleftrightarrow>
         counted_trials G rnd draw (pos + 1) (Suc n) hits pos'"
proof
  assume "counted_trials G rnd draw pos (Suc n) hits pos'"
  then obtain hit mid hits0 where
    tr: "counted_trial G rnd draw pos hit mid"
    and rest: "counted_trials G rnd draw mid n hits0 pos'"
    and h: "hits = (if hit then hits0 + 1 else hits0)"
    by (cases rule: counted_trials.cases) auto
  from tr assms have "counted_trial G rnd draw (pos + 1) hit mid"
    by (cases rule: counted_trial.cases) auto
  then have "counted_trials G rnd draw (pos + 1) (Suc n) (if hit then hits0 + 1 else hits0) pos'"
    using rest by (rule counted_trials.next_trial)
  then show "counted_trials G rnd draw (pos + 1) (Suc n) hits pos'" using h by simp
next
  assume "counted_trials G rnd draw (pos + 1) (Suc n) hits pos'"
  then obtain hit mid hits0 where
    tr: "counted_trial G rnd draw (pos + 1) hit mid"
    and rest: "counted_trials G rnd draw mid n hits0 pos'"
    and h: "hits = (if hit then hits0 + 1 else hits0)"
    by (cases rule: counted_trials.cases) auto
  from assms tr have "counted_trial G rnd draw pos hit mid" by (rule counted_trial.discarded)
  then have "counted_trials G rnd draw pos (Suc n) (if hit then hits0 + 1 else hits0) pos'"
    using rest by (rule counted_trials.next_trial)
  then show "counted_trials G rnd draw pos (Suc n) hits pos'" using h by simp
qed

lemma approxAvgLocal_value:
  assumes "0 < trials"
  shows "approxAvgLocal G rnd trials = Some (Inr x) \<longleftrightarrow>
         (\<exists>hits pos'. counted_trials G rnd (avgLocal_draw G rnd) 0 trials hits pos' \<and>
                       x = Finite (real hits / real trials))"
proof
  assume "approxAvgLocal G rnd trials = Some (Inr x)"
  then have "estimate trials (approxAvgLocal_loop G rnd trials 0 0 0) = Some (Inr x)"
    by (simp only: approxAvgLocal_def)
  from estimate_value [OF this] obtain t where
    run: "approxAvgLocal_loop G rnd trials 0 0 0 = Some (Inr t)"
    and x: "x = ddiv (real t) (real trials)" by blast
  from avgLocal_run_trials [OF run] obtain hits pos' where
    "counted_trials G rnd (avgLocal_draw G rnd) 0 trials hits pos'" "t = hits" by auto
  then show "\<exists>hits pos'. counted_trials G rnd (avgLocal_draw G rnd) 0 trials hits pos' \<and>
                       x = Finite (real hits / real trials)"
    using x assms by (auto simp: ddiv_def)
next
  assume "\<exists>hits pos'. counted_trials G rnd (avgLocal_draw G rnd) 0 trials hits pos' \<and>
                       x = Finite (real hits / real trials)"
  then obtain hits pos' where
    c: "counted_trials G rnd (avgLocal_draw G rnd) 0 trials hits pos'"
    and x: "x = Finite (real hits / real trials)" by blast
  have "approxAvgLocal_loop G rnd trials 0 0 0 = Some (Inr (0 + hits))"
    using c by (rule avgLocal_trials_run) simp
  then show "approxAvgLocal G rnd trials = Some (Inr x)"
    using x assms by (simp add: approxAvgLocal_def estimate_simps ddiv_def)
qed

lemma approxGlobal_value:
  assumes "0 < trials"
  shows "approxGlobal G rnd trials = Some (Inr x) \<longleftrightarrow>
         (\<exists>hits pos'. counted_trials G rnd (global_draw G rnd) 0 trials hits pos' \<and>
                       x = Finite (real hits / real trials))"
proof
  assume "approxGlobal G rnd trials = Some (Inr x)"
  then have "estimate trials (approxGlobal_loop G rnd (fst (prefixWeights G))
        (snd (prefixWeights G)) trials 0 0 0) = Some (Inr x)"
    by (simp only: approxGlobal_unfold)
  from estimate_value [OF this] obtain t where
    run: "approxGlobal_loop G rnd (fst (prefixWeights G)) (snd (prefixWeights G)) trials 0 0 0
          = Some (Inr t)"
    and x: "x = ddiv (real t) (real trials)" by blast
  from global_run_trials [OF run] obtain hits pos' where
    "counted_trials G rnd (global_draw G rnd) 0 trials hits pos'" "t = hits"
    unfolding global_draw_def by auto
  then show "\<exists>hits pos'. counted_trials G rnd (global_draw G rnd) 0 trials hits pos' \<and>
                       x = Finite (real hits / real trials)"
    using x assms by (auto simp: ddiv_def)
next
  assume "\<exists>hits pos'. counted_trials G rnd (global_draw G rnd) 0 trials hits pos' \<and>
                       x = Finite (real hits / real trials)"
  then obtain hits pos' where
    c: "counted_trials G rnd (global_draw G rnd) 0 trials hits pos'"
    and x: "x = Finite (real hits / real trials)" by blast
  have "approxGlobal_loop G rnd (fst (prefixWeights G)) (snd (prefixWeights G)) trials 0 0 0
        = Some (Inr (0 + hits))"
    using c unfolding global_draw_def by (rule global_trials_run) simp
  then show "approxGlobal G rnd trials = Some (Inr x)"
    using x assms by (simp add: approxGlobal_unfold estimate_simps ddiv_def)
qed

lemma hits_in_unit_interval:
  assumes "counted_trials G rnd draw pos trials hits pos'"
  shows "hits \<le> trials \<and> 0 \<le> real hits / real trials \<and> real hits / real trials \<le> 1"
proof -
  have h: "hits \<le> trials" using assms by (rule counted_trials_hits)
  have "real hits / real trials \<le> 1"
  proof (cases "trials = 0")
    case True
    then show ?thesis by simp
  next
    case False
    then show ?thesis using h by simp
  qed
  with h show ?thesis by simp
qed

text \<open>
  Claim C10, amended.  In a graph with a node of degree at least two, for every positive
  trial count and every sequence of raw draws, \<open>approxAvgLocal\<close> and \<open>approxGlobal\<close> return
  a value exactly when the draws complete \<open>trials\<close> counted trials, and the value is then
  \<open>hits / trials\<close>, in \<open>[0, 1]\<close>: every counted trial contributes at most one hit, and a
  discarded low-degree draw leaves the number of trials still to be counted as it was.
  The trials are completed, and a value is returned, when every existing node (for
  \<open>approxGlobal\<close>: every node of degree at least two, all samples being inside the id
  range) and every neighbour is drawn again from every position of the sequence on and
  every node of degree at least two has two different neighbours.
\<close>

theorem approx_estimates_counted_trials:
  assumes "\<exists>u\<in>set (nodes G). 2 \<le> degree G u" and "0 < trials"
  shows
    "(\<forall>x. approxAvgLocal G rnd trials = Some (Inr x) \<longleftrightarrow>
        (\<exists>hits pos'. counted_trials G rnd (avgLocal_draw G rnd) 0 trials hits pos' \<and>
                      x = Finite (real hits / real trials))) \<and>
     (\<forall>x. approxGlobal G rnd trials = Some (Inr x) \<longleftrightarrow>
        (\<exists>hits pos'. counted_trials G rnd (global_draw G rnd) 0 trials hits pos' \<and>
                      x = Finite (real hits / real trials))) \<and>
     (\<forall>draw hits pos'. counted_trials G rnd draw 0 trials hits pos' \<longrightarrow>
        hits \<le> trials \<and> 0 \<le> real hits / real trials \<and> real hits / real trials \<le> 1) \<and>
     (\<forall>draw pos v n hits pos'. draw pos = Some v \<and> degree G v < 2 \<longrightarrow>
        (counted_trials G rnd draw pos (Suc n) hits pos' \<longleftrightarrow>
         counted_trials G rnd draw (pos + 1) (Suc n) hits pos')) \<and>
     (nodes_recur G rnd \<and> neighbours_recur G rnd \<and> two_neighbours G \<longrightarrow>
        (\<exists>x. approxAvgLocal G rnd trials = Some (Inr x))) \<and>
     (samples_recur G rnd \<and> neighbours_recur G rnd \<and> two_neighbours G \<longrightarrow>
        (\<exists>x. approxGlobal G rnd trials = Some (Inr x)))"
proof -
  have a: "approxAvgLocal G rnd trials = Some (Inr x) \<longleftrightarrow>
        (\<exists>hits pos'. counted_trials G rnd (avgLocal_draw G rnd) 0 trials hits pos' \<and>
                      x = Finite (real hits / real trials))" for x
    using assms(2) by (rule approxAvgLocal_value)
  have g: "approxGlobal G rnd trials = Some (Inr x) \<longleftrightarrow>
        (\<exists>hits pos'. counted_trials G rnd (global_draw G rnd) 0 trials hits pos' \<and>
                      x = Finite (real hits / real trials))" for x
    using assms(2) by (rule approxGlobal_value)
  have b: "hits \<le> trials \<and> 0 \<le> real hits / real trials \<and> real hits / real trials \<le> 1"
    if "counted_trials G rnd draw 0 trials hits pos'" for draw hits pos'
    using that by (rule hits_in_unit_interval)
  have d: "counted_trials G rnd draw pos (Suc n) hits pos' \<longleftrightarrow>
           counted_trials G rnd draw (pos + 1) (Suc n) hits pos'"
    if "draw pos = Some v \<and> degree G v < 2" for draw pos v n hits pos'
    using that discarded_draw [of draw pos v G rnd n hits pos'] by blast
  have ta: "\<exists>x. approxAvgLocal G rnd trials = Some (Inr x)"
    if "nodes_recur G rnd \<and> neighbours_recur G rnd \<and> two_neighbours G"
  proof -
    from that avgLocal_trials_exist [OF assms(1), of rnd 0 trials] obtain hits pos' where
      "counted_trials G rnd (avgLocal_draw G rnd) 0 trials hits pos'" by blast
    then have "approxAvgLocal G rnd trials = Some (Inr (Finite (real hits / real trials)))"
      unfolding a by blast
    then show ?thesis by blast
  qed
  have tg: "\<exists>x. approxGlobal G rnd trials = Some (Inr x)"
    if "samples_recur G rnd \<and> neighbours_recur G rnd \<and> two_neighbours G"
  proof -
    from that global_trials_exist [OF assms(1), of rnd 0 trials] obtain hits pos' where
      "counted_trials G rnd (global_draw G rnd) 0 trials hits pos'" by blast
    then have "approxGlobal G rnd trials = Some (Inr (Finite (real hits / real trials)))"
      unfolding g by blast
    then show ?thesis by blast
  qed
  show ?thesis
    apply (intro conjI allI impI)
    subgoal for x by (rule a)
    subgoal for x by (rule g)
    subgoal for draw hits pos' using b [of draw hits pos'] by simp
    subgoal for draw hits pos' using b [of draw hits pos'] by simp
    subgoal for draw hits pos' using b [of draw hits pos'] by simp
    subgoal for draw pos v n hits pos' by (rule d)
    subgoal by (rule ta)
    subgoal by (rule tg)
    done
qed

lemma avgLocal_all_discarded:
  assumes run: "approxAvgLocal_loop G rnd trials k pos t = Some y"
    and low: "\<forall>pos. \<exists>v. randomNode G (rnd pos) = Some v \<and> degree G v < 2"
  shows "\<not> k < trials"
proof -
  have "(\<forall>pos. \<exists>v. randomNode G (rnd pos) = Some v \<and> degree G v < 2) \<longrightarrow> \<not> k < trials"
  proof (rule approxAvgLocal_loop.raw_induct
    [where P = "\<lambda>G rnd trials k pos t y.
        (\<forall>pos. \<exists>v. randomNode G (rnd pos) = Some v \<and> degree G v < 2) \<longrightarrow> \<not> k < trials",
      OF _ run])
    fix loop :: "graph \<Rightarrow> (nat \<Rightarrow> nat) \<Rightarrow> nat \<Rightarrow> nat \<Rightarrow> nat \<Rightarrow> nat \<Rightarrow> (fault + nat) option"
    fix G rnd trials k pos t y
    assume IH: "\<And>G rnd trials k pos t y. loop G rnd trials k pos t = Some y \<Longrightarrow>
        (\<forall>pos. \<exists>v. randomNode G (rnd pos) = Some v \<and> degree G v < 2) \<longrightarrow> \<not> k < trials"
      and step: "(if k < trials then
        (case randomNode G (rnd pos) of
           None \<Rightarrow> Some (Inl NoNodeToDraw)
         | Some v \<Rightarrow>
             if degree G v < 2 then loop G rnd trials k (pos + 1) t
             else
               (let u = randomNeighbor G v (rnd (pos + 1));
                    w = randomNeighbor G v (rnd (pos + 2))
                in case redraw G rnd v u w (pos + 3) of
                     None \<Rightarrow> None
                   | Some (w', pos') \<Rightarrow>
                       loop G rnd trials (k + 1) pos'
                         (if hasEdge G u w' then t + 1 else t)))
      else Some (Inr t)) = Some y"
    show "(\<forall>pos. \<exists>v. randomNode G (rnd pos) = Some v \<and> degree G v < 2) \<longrightarrow> \<not> k < trials"
    proof (intro impI notI)
      assume low: "\<forall>pos. \<exists>v. randomNode G (rnd pos) = Some v \<and> degree G v < 2"
        and k: "k < trials"
      from low obtain v where v: "randomNode G (rnd pos) = Some v" "degree G v < 2" by blast
      with step k have "loop G rnd trials k (pos + 1) t = Some y" by simp
      from IH [OF this] low k show False by blast
    qed
  qed
  with low show ?thesis by blast
qed

lemma periodic_single: "periodic [c] pos = c"
  by (simp add: periodic_def)

text \<open>
  Claim C10 as stated fails for some sequences of draws: \<open>pawGraph\<close> has nodes of degree at
  least two, but when every node draw yields node 3, of degree one, \<open>approxAvgLocal\<close>
  discards every draw, never counts a trial and returns no value; when every raw draw is
  \<open>7\<close>, \<open>approxGlobal\<close> samples node 1 and redraws its second neighbour forever.
\<close>

theorem approx_estimates_counterexample:
  "(\<exists>u\<in>set (nodes pawGraph). 2 \<le> degree pawGraph u) \<and> (0 :: nat) < 1 \<and>
   randomNode pawGraph 3 = Some 3 \<and> degree pawGraph 3 = 1 \<and>
   approxAvgLocal pawGraph (periodic [3]) 1 = None \<and>
   approxGlobal pawGraph (periodic [7]) 1 = None"
proof -
  have h: "\<exists>u\<in>set (nodes pawGraph). 2 \<le> degree pawGraph u" by code_simp
  have n: "randomNode pawGraph 3 = Some 3" by code_simp
  have d: "degree pawGraph 3 = 1" by code_simp
  have low: "\<forall>pos. \<exists>v. randomNode pawGraph (periodic [3] pos) = Some v \<and> degree pawGraph v < 2"
    using n d by (simp add: periodic_single)
  have "approxAvgLocal_loop pawGraph (periodic [3]) 1 0 0 0 = None"
  proof (cases "approxAvgLocal_loop pawGraph (periodic [3]) 1 0 0 0")
    case None
    then show ?thesis .
  next
    case (Some y)
    then show ?thesis using avgLocal_all_discarded [OF Some low] by simp
  qed
  then have a: "approxAvgLocal pawGraph (periodic [3]) 1 = None"
    by (simp add: approxAvgLocal_def estimate_simps)
  have p: "prefixWeights pawGraph = (10, [6, 8, 10, 10])" by code_simp
  have z: "upperNodeIdBound pawGraph = 4" by code_simp
  have i: "random_integer (count_pred 10) 7 = 7" by (simp add: random_integer_def count_pred_def)
  have b: "binarySearch [6, 8, 10, 10] 7 0 4 = 1" by code_simp
  have d1: "degree pawGraph (Suc 0) = 2" by code_simp
  have nb: "randomNeighbor pawGraph (Suc 0) 7 = 2" by code_simp
  have r: "redraw pawGraph (periodic [7]) (Suc 0) 2 2 3 = None"
    by (rule redraw_diverges) (simp add: periodic_single nb)
  have "approxGlobal_loop pawGraph (periodic [7]) 10 [6, 8, 10, 10] 1 0 0 0 = None"
    by (subst approxGlobal_loop.simps) (simp add: periodic_single z i b d1 nb r)
  then have g: "approxGlobal pawGraph (periodic [7]) 1 = None"
    by (simp add: approxGlobal_unfold p estimate_simps)
  show ?thesis using h n d a g by simp
qed

lemma periodic_recurs:
  assumes "j < length xs"
  shows "\<exists>n. periodic xs (pos + n) = xs ! j"
proof -
  obtain q where q: "length xs = Suc q" using assms by (cases "length xs") auto
  have "pos + (j + q * pos) = j + length xs * pos" by (simp add: q)
  then have "periodic xs (pos + (j + q * pos)) = xs ! ((j + length xs * pos) mod length xs)"
    by (simp only: periodic_def)
  also have "\<dots> = xs ! j" using assms by simp
  finally show ?thesis by blast
qed

lemma dozen_recurs: "j < 12 \<Longrightarrow> \<exists>n. periodic [0..<12] (pos + n) = j"
  using periodic_recurs [of j "[0..<12]" pos] by simp

lemma dozen_bound: "periodic [0..<12] pos < 12"
  by (simp add: periodic_def)

lemma paw_nodes_recur: "nodes_recur pawGraph (periodic [0..<12])"
proof -
  have f: "\<forall>u\<in>set (nodes pawGraph). u < 12 \<and> randomNode pawGraph u = Some u" by code_simp
  show ?thesis
    unfolding nodes_recur_def avgLocal_draw_def
  proof (intro allI ballI)
    fix pos u assume u: "u \<in> set (nodes pawGraph)"
    with f have "u < 12" and s: "randomNode pawGraph u = Some u" by blast+
    then obtain n where "periodic [0..<12] (pos + n) = u" using dozen_recurs by blast
    with s show "\<exists>n. randomNode pawGraph (periodic [0..<12] (pos + n)) = Some u" by auto
  qed
qed

lemma paw_neighbours_recur: "neighbours_recur pawGraph (periodic [0..<12])"
proof -
  have f: "\<forall>v\<in>set [0..<upperNodeIdBound pawGraph]. \<forall>w\<in>set (edgesOf pawGraph v).
             \<exists>j\<in>set [0..<12]. randomNeighbor pawGraph v j = w"
    by code_simp
  show ?thesis
    unfolding neighbours_recur_def
  proof (intro allI ballI)
    fix pos v w
    assume "v \<in> set [0..<upperNodeIdBound pawGraph]" and "w \<in> set (edgesOf pawGraph v)"
    with f obtain j where j: "j \<in> set [0..<12]" and r: "randomNeighbor pawGraph v j = w"
      by blast
    from j have "j < 12" by simp
    then obtain n where "periodic [0..<12] (pos + n) = j" using dozen_recurs by blast
    with r show "\<exists>n. randomNeighbor pawGraph v (periodic [0..<12] (pos + n)) = w" by auto
  qed
qed

lemma paw_samples_recur: "samples_recur pawGraph (periodic [0..<12])"
proof -
  have p: "prefixWeights pawGraph = (10, [6, 8, 10, 10])" by code_simp
  have g: "global_draw pawGraph rnd pos = weighted_node pawGraph 10 [6, 8, 10, 10] (rnd pos)"
    for rnd pos
    by (simp add: global_draw_def weighted_draw_def p)
  have f1: "\<forall>j\<in>set [0..<12]. \<exists>v\<in>set [0..<4]. weighted_node pawGraph 10 [6, 8, 10, 10] j = Some v"
    by code_simp
  have f2: "\<forall>u\<in>set (nodes pawGraph). 2 \<le> degree pawGraph u \<longrightarrow>
              (\<exists>j\<in>set [0..<12]. weighted_node pawGraph 10 [6, 8, 10, 10] j = Some u)"
    by code_simp
  have a: "\<exists>v. global_draw pawGraph (periodic [0..<12]) pos = Some v" for pos
  proof -
    have "periodic [0..<12] pos \<in> set [0..<12]" using dozen_bound [of pos] by simp
    with f1 show ?thesis unfolding g by blast
  qed
  have b: "\<exists>n. global_draw pawGraph (periodic [0..<12]) (pos + n) = Some u"
    if "u \<in> set (nodes pawGraph)" and "2 \<le> degree pawGraph u" for pos u
  proof -
    from f2 that obtain j where j: "j \<in> set [0..<12]"
      and w: "weighted_node pawGraph 10 [6, 8, 10, 10] j = Some u" by blast
    from j have "j < 12" by simp
    then obtain n where "periodic [0..<12] (pos + n) = j" using dozen_recurs by blast
    with w show ?thesis unfolding g by auto
  qed
  show ?thesis unfolding samples_recur_def using a b by blast
qed

theorem approx_estimates_counted_trials_witness:
  "(\<exists>u\<in>set (nodes pawGraph). 2 \<le> degree pawGraph u) \<and> (0 :: nat) < 4 \<and>
   nodes_recur pawGraph (periodic [0..<12]) \<and> samples_recur pawGraph (periodic [0..<12]) \<and>
   neighbours_recur pawGraph (periodic [0..<12]) \<and> two_neighbours pawGraph \<and>
   approxAvgLocal pawGraph (periodic [0..<12]) 4 = Some (Inr (Finite (1 / 4))) \<and>
   approxGlobal pawGraph (periodic [0..<12]) 4 = Some (Inr (Finite (1 / 4))) \<and>
   (\<exists>hits pos'. counted_trials pawGraph (periodic [0..<12])
                   (avgLocal_draw pawGraph (periodic [0..<12])) 0 4 hits pos' \<and>
                 Finite (1 / 4) = Finite (real hits / real 4)) \<and>
   (\<exists>hits pos'. counted_trials pawGraph (periodic [0..<12])
                   (global_draw pawGraph (periodic [0..<12])) 0 4 hits pos' \<and>
                 Finite (1 / 4) = Finite (real hits / real 4)) \<and>
   (\<exists>x. approxAvgLocal pawGraph (periodic [0..<12]) 4 = Some (Inr x)) \<and>
   (\<exists>x. approxGlobal pawGraph (periodic [0..<12]) 4 = Some (Inr x))"
proof -
  have h1: "\<exists>u\<in>set (nodes pawGraph). 2 \<le> degree pawGraph u" by code_simp
  have h2: "(0 :: nat) < 4" by simp
  have two: "two_neighbours pawGraph" by code_simp
  have a: "approxAvgLocal pawGraph (periodic [0..<12]) 4 = Some (Inr (Finite (1 / 4)))"
    by code_simp
  have g: "approxGlobal pawGraph (periodic [0..<12]) 4 = Some (Inr (Finite (1 / 4)))"
    by code_simp
  note counted = approx_estimates_counted_trials [OF h1 h2, of "periodic [0..<12]"]
  have ca: "\<exists>hits pos'. counted_trials pawGraph (periodic [0..<12])
                   (avgLocal_draw pawGraph (periodic [0..<12])) 0 4 hits pos' \<and>
                 Finite (1 / 4) = Finite (real hits / real 4)"
    using counted [THEN conjunct1, rule_format, of "Finite (1 / 4)"] a by blast
  have cg: "\<exists>hits pos'. counted_trials pawGraph (periodic [0..<12])
                   (global_draw pawGraph (periodic [0..<12])) 0 4 hits pos' \<and>
                 Finite (1 / 4) = Finite (real hits / real 4)"
    using counted [THEN conjunct2, THEN conjunct1, rule_format, of "Finite (1 / 4)"] g by blast
  have ta: "\<exists>x. approxAvgLocal pawGraph (periodic [0..<12]) 4 = Some (Inr x)"
    using counted paw_nodes_recur paw_neighbours_recur two by blast
  have tg: "\<exists>x. approxGlobal pawGraph (periodic [0..<12]) 4 = Some (Inr x)"
    using counted paw_samples_recur paw_neighbours_recur two by blast
  show ?thesis
    using h1 h2 paw_nodes_recur paw_samples_recur paw_neighbours_recur two a g ca cg ta tg
    by (intro conjI)
qed

end
